theory Spec2Isabelle
  imports Main "HOL-Library.AList"
begin

section \<open>The object heap\<close>

text \<open>
  The store engine of \<^verbatim>\<open>src/index.ts\<close> works on JavaScript object graphs and decides
  everything by object identity. Objects therefore live in an explicit heap: an address is
  an index into a list of objects, allocation appends, and a reference is the address.

  Scope of the model. Properties are data properties carrying the four descriptor fields;
  accessor properties, arrays (with their self-adjusting \<^verbatim>\<open>length\<close>) and symbol keys are not
  represented, and property keys are assumed not to be names inherited from
  \<^verbatim>\<open>Object.prototype\<close>. Numbers are integers plus the two values on which \<^verbatim>\<open>===\<close> and
  \<^verbatim>\<open>Object.is\<close> disagree, \<^verbatim>\<open>NaN\<close> and \<^verbatim>\<open>-0\<close>. An object is either \<open>Plain\<close> (what \<^verbatim>\<open>canProxy\<close>
  accepts) or \<open>Exotic\<close> (class instances, dates, maps: anything \<^verbatim>\<open>canProxy\<close> refuses).
\<close>

type_synonym addr = nat
type_synonym key = string

datatype val =
    VUndef | VNull | VBool bool | VNum int | VNaN | VNegZero | VStr string
  | VFun nat | VRef addr

datatype okind = Plain | Exotic

record desc =
  pval :: val
  writable :: bool
  enumerable :: bool
  configurable :: bool

record obj =
  kind :: okind
  props :: "(key \<times> desc) list"

type_synonym heap = "obj list"

text \<open>\<^verbatim>\<open>Object.is\<close> is equality of values; \<^verbatim>\<open>===\<close> differs from it on \<^verbatim>\<open>NaN\<close> and on the zeros.\<close>

definition object_is :: "val \<Rightarrow> val \<Rightarrow> bool" where
  "object_is x y = (x = y)"

fun strict_eq :: "val \<Rightarrow> val \<Rightarrow> bool" where
  "strict_eq VNaN y = False"
| "strict_eq x VNaN = False"
| "strict_eq VNegZero y = (y = VNegZero \<or> y = VNum 0)"
| "strict_eq x VNegZero = (x = VNum 0)"
| "strict_eq x y = (x = y)"

fun truthy :: "val \<Rightarrow> bool" where
  "truthy VUndef = False"
| "truthy VNull = False"
| "truthy (VBool b) = b"
| "truthy (VNum n) = (n \<noteq> 0)"
| "truthy VNaN = False"
| "truthy VNegZero = False"
| "truthy (VStr s) = (s \<noteq> [])"
| "truthy (VFun f) = True"
| "truthy (VRef a) = True"

definition ownKeys :: "heap \<Rightarrow> addr \<Rightarrow> key list" where
  "ownKeys h a = (if a < length h then map fst (props (h ! a)) else [])"

definition getOwnPropertyDescriptor :: "heap \<Rightarrow> addr \<Rightarrow> key \<Rightarrow> desc option" where
  "getOwnPropertyDescriptor h a k = (if a < length h then map_of (props (h ! a)) k else None)"

text \<open>
  \<^verbatim>\<open>Object.defineProperty\<close> with a complete descriptor: an existing key keeps its position,
  a new key goes last.
\<close>

definition defineProperty :: "heap \<Rightarrow> addr \<Rightarrow> key \<Rightarrow> desc \<Rightarrow> heap" where
  "defineProperty h a k d =
     (if a < length h then h[a := (h ! a)\<lparr>props := AList.update k d (props (h ! a))\<rparr>] else h)"

text \<open>\<^verbatim>\<open>Reflect.get\<close> on a data-property object: the value, or \<^verbatim>\<open>undefined\<close>.\<close>

definition reflect_get :: "heap \<Rightarrow> addr \<Rightarrow> key \<Rightarrow> val" where
  "reflect_get h a k = (case getOwnPropertyDescriptor h a k of None \<Rightarrow> VUndef | Some d \<Rightarrow> pval d)"

fun canProxy :: "heap \<Rightarrow> val \<Rightarrow> bool" where
  "canProxy h (VRef a) = (a < length h \<and> kind (h ! a) = Plain)"
| "canProxy h _ = False"

fun isObject :: "val \<Rightarrow> bool" where
  "isObject (VRef a) = True"
| "isObject _ = False"

section \<open>Deep read-only marking\<close>

text \<open>
  \<^verbatim>\<open>readonly(target, deep, visited)\<close>. The visited set is the mutable \<^verbatim>\<open>WeakSet\<close> shared by
  the whole traversal, so it is threaded through and returned together with the heap. The
  descriptor of a key is read before the recursive call and written back after it with
  \<^verbatim>\<open>writable\<close> cleared, as in the source; \<open>freeze_prop\<close> is the last three lines of the
  loop body.
\<close>

definition freeze_prop :: "heap \<Rightarrow> addr \<Rightarrow> key \<Rightarrow> desc \<Rightarrow> heap" where
  "freeze_prop h a k d =
     (if \<not> writable d then h else defineProperty h a k (d\<lparr>writable := False\<rparr>))"

function readonly :: "heap \<Rightarrow> val \<Rightarrow> bool \<Rightarrow> addr set \<Rightarrow> heap \<times> addr set"
  and readonly_keys :: "heap \<Rightarrow> addr \<Rightarrow> bool \<Rightarrow> addr set \<Rightarrow> key list \<Rightarrow> heap \<times> addr set"
where
  "readonly h target deep visited =
     (case target of
        VRef a \<Rightarrow>
          if \<not> canProxy h target then (h, visited)
          else if a \<in> visited then (h, visited)
          else readonly_keys h a deep (insert a visited) (ownKeys h a)
      | _ \<Rightarrow> (h, visited))"
| "readonly_keys h a deep visited [] = (h, visited)"
| "readonly_keys h a deep visited (k # ks) =
     (case getOwnPropertyDescriptor h a k of
        None \<Rightarrow> readonly_keys h a deep visited ks
      | Some d \<Rightarrow>
          if \<not> configurable d then readonly_keys h a deep visited ks
          else if deep \<and> truthy (pval d) \<and> canProxy h (pval d) then
            (case readonly h (pval d) True visited of
               (h1, visited1) \<Rightarrow> readonly_keys (freeze_prop h1 a k d) a deep visited1 ks)
          else readonly_keys (freeze_prop h a k d) a deep visited ks)"
  by pat_completeness auto

definition unvisited :: "nat \<Rightarrow> addr set \<Rightarrow> nat" where
  "unvisited n visited = card ({a. a < n} - visited)"


section \<open>The store and its side tables\<close>

text \<open>
  The closure variables of \<^verbatim>\<open>create\<close> form the store. Every \<^verbatim>\<open>WeakMap\<close> keyed by
  objects is a table keyed by addresses. A mutation record is the source's
  \<^verbatim>\<open>Record<key, ["set", value] | ["del"]>\<close> together with its \<^verbatim>\<open>DIRTY_SYMBOL\<close> entry, kept as a
  flag. A draft proxy is determined by its target (\<^verbatim>\<open>proxyCache\<close> hands out one proxy per
  target), so a draft view is represented by the address of its target.

  Listeners are passive observers here: a notification round, the loop
  \<^verbatim>\<open>for (const listener of listeners) listener(_computedState, prevState)\<close>, is recorded in
  \<open>notified\<close> as the pair of its two arguments.
\<close>

datatype mutation = MSet val | MDel

record mutrec =
  muts :: "(key \<times> mutation) list"
  dirty :: bool

record used =
  has_keys :: "key list"
  all_own_keys :: bool
  has_own_keys :: "key list"
  read_keys :: "key list"

type_synonym affected = "(addr \<times> used) list"

record centry =
  cstate :: addr
  caffected :: affected
  cachedResult :: val

record store =
  heap :: heap
  state :: addr
  computedState :: addr
  inAction :: bool
  mutationCache :: "(addr \<times> mutrec) list"
  flushCache :: "addr \<rightharpoonup> addr"
  childrenCache :: "addr \<rightharpoonup> (key \<times> addr) list"
  parentsCache :: "addr \<rightharpoonup> addr list"
  snapshotCache :: "addr \<rightharpoonup> addr"
  computedNames :: "string list"
  computedCache :: "(string \<times> centry) list"
  snapshotLocal :: "addr \<rightharpoonup> addr \<times> (string \<times> centry) list"
  evaluated :: "(string \<times> addr) list"
  notified :: "(addr \<times> addr) list"

definition dirty_set :: "(addr \<times> mutrec) list \<Rightarrow> addr set" where
  "dirty_set mc = {a. \<exists>m. map_of mc a = Some m \<and> dirty m}"

text \<open>\<^verbatim>\<open>new Set(xs)\<close> keeps the first occurrence of every element, in order.\<close>

definition uniq :: "'a list \<Rightarrow> 'a list" where
  "uniq xs = rev (remdups (rev xs))"

section \<open>Committing a draft: \<^verbatim>\<open>getFlushed\<close>\<close>

text \<open>
  \<^verbatim>\<open>getFlushed(obj)\<close> and the body of its \<^verbatim>\<open>for\<close> loop. \<open>flush_set\<close> is the branch for a key
  with a pending \<^verbatim>\<open>["set", value]\<close>: the descriptor of the old object is read first, then
  the value is made read-only, then the property is defined on the copy. A key that is
  neither pending nor already on the copy always has a descriptor on the old object (the
  source asserts it with \<^verbatim>\<open>!\<close>); the model skips the key in the impossible other case.
\<close>

definition flush_set :: "store \<Rightarrow> addr \<Rightarrow> addr \<Rightarrow> key \<Rightarrow> val \<Rightarrow> store" where
  "flush_set st ob newObj k v =
     (let d0 = getOwnPropertyDescriptor (heap st) ob k;
          h1 = fst (readonly (heap st) v True {})
      in case d0 of
           Some d \<Rightarrow> st\<lparr>heap := defineProperty h1 newObj k (d\<lparr>pval := v\<rparr>)\<rparr>
         | None \<Rightarrow> st\<lparr>heap := defineProperty h1 newObj k
                      \<lparr>pval = v, writable = False, enumerable = True, configurable = True\<rparr>\<rparr>)"

definition clear_dirty :: "store \<Rightarrow> addr \<Rightarrow> mutrec \<Rightarrow> store" where
  "clear_dirty st ob m =
     st\<lparr>mutationCache := AList.update ob (m\<lparr>dirty := False\<rparr>) (mutationCache st)\<rparr>"

definition alloc_copy :: "store \<Rightarrow> addr \<Rightarrow> store" where
  "alloc_copy st ob =
     st\<lparr>heap := heap st @ [\<lparr>kind = Plain, props = []\<rparr>],
        flushCache := (flushCache st)(ob \<mapsto> length (heap st))\<rparr>"

function getFlushed :: "store \<Rightarrow> val \<Rightarrow> val \<times> store"
  and getFlushed_keys ::
    "store \<Rightarrow> addr \<Rightarrow> addr \<Rightarrow> (key \<times> mutation) list \<Rightarrow> key list \<Rightarrow> store"
where
  "getFlushed st v =
     (case v of
        VRef ob \<Rightarrow>
          (case map_of (mutationCache st) ob of
             None \<Rightarrow> (v, st)
           | Some m \<Rightarrow>
               if \<not> dirty m then
                 (case flushCache st ob of None \<Rightarrow> (VUndef, st) | Some n \<Rightarrow> (VRef n, st))
               else
                 (VRef (length (heap st)),
                  getFlushed_keys (alloc_copy (clear_dirty st ob m) ob) ob (length (heap st))
                    (muts m) (uniq (ownKeys (heap st) ob @ map fst (muts m)))))
      | _ \<Rightarrow> (v, st))"
| "getFlushed_keys st ob newObj ms [] = st"
| "getFlushed_keys st ob newObj ms (k # ks) =
     (case map_of ms k of
        Some (MSet v) \<Rightarrow> getFlushed_keys (flush_set st ob newObj k v) ob newObj ms ks
      | Some MDel \<Rightarrow> getFlushed_keys st ob newObj ms ks
      | None \<Rightarrow>
          if getOwnPropertyDescriptor (heap st) newObj k \<noteq> None
          then getFlushed_keys st ob newObj ms ks
          else
            (case getOwnPropertyDescriptor (heap st) ob k of
               None \<Rightarrow> getFlushed_keys st ob newObj ms ks
             | Some d \<Rightarrow>
                 if configurable d then
                   (case getFlushed st (reflect_get (heap st) ob k) of
                      (v1, st1) \<Rightarrow>
                        getFlushed_keys
                          (st1\<lparr>heap := defineProperty (heap st1) newObj k (d\<lparr>pval := v1\<rparr>)\<rparr>)
                          ob newObj ms ks)
                 else
                   getFlushed_keys (st\<lparr>heap := defineProperty (heap st) newObj k d\<rparr>)
                     ob newObj ms ks))"
  by pat_completeness auto

section \<open>Snapshots and publication\<close>

text \<open>
  \<^verbatim>\<open>{ ...state }\<close> copies the enumerable own properties into fresh, fully writable data
  properties.
\<close>

definition spread :: "heap \<Rightarrow> addr \<Rightarrow> (key \<times> desc) list" where
  "spread h a =
     map (\<lambda>(k, d). (k, \<lparr>pval = pval d, writable = True, enumerable = True, configurable = True\<rparr>))
       (filter (\<lambda>(k, d). enumerable d) (if a < length h then props (h ! a) else []))"


section \<open>The access-tracking comparison\<close>

text \<open>
  Modelled from the spec: \<^verbatim>\<open>isChanged\<close> and the access map it consults belong to the
  access-tracking engine, which \<^verbatim>\<open>index.ts\<close> imports and whose code is not among the
  sources. The definition follows section 4.1 of the specification: walk only the edges
  recorded in the access map; compare the values at a recorded key by identity and, where
  they differ, recurse only if the access map has an entry for the old child, otherwise
  report a change; compare existence for recorded existence checks and the key set for a
  recorded enumeration. The set \<open>seen\<close> holds the pairs on the current path, which
  bounds the walk on cyclic graphs.
\<close>

definition has_key :: "heap \<Rightarrow> addr \<Rightarrow> key \<Rightarrow> bool" where
  "has_key h a k = (getOwnPropertyDescriptor h a k \<noteq> None)"

function isChanged ::
  "heap \<Rightarrow> (addr \<times> addr) set \<Rightarrow> val \<Rightarrow> val \<Rightarrow> affected \<Rightarrow> bool"
where
  "isChanged h seen prev nxt aff =
     (if object_is prev nxt then False
      else case (prev, nxt) of
        (VRef a, VRef b) \<Rightarrow>
          (case map_of aff a of
             None \<Rightarrow> True
           | Some u \<Rightarrow>
               if (a, b) \<in> seen \<or> \<not> a < length h \<or> \<not> b < length h then False
               else
                 (\<exists>k \<in> set (has_keys u). has_key h a k \<noteq> has_key h b k)
                 \<or> (all_own_keys u \<and> set (ownKeys h a) \<noteq> set (ownKeys h b))
                 \<or> (\<exists>k \<in> set (has_own_keys u). has_key h a k \<noteq> has_key h b k)
                 \<or> (\<exists>k \<in> set (read_keys u).
                       isChanged h (insert (a, b) seen) (reflect_get h a k) (reflect_get h b k) aff))
      | _ \<Rightarrow> True)"
  by pat_completeness auto

definition unseen :: "nat \<Rightarrow> (addr \<times> addr) set \<Rightarrow> nat" where
  "unseen n seen = card (({a. a < n} \<times> {b. b < n}) - seen)"

section \<open>Snapshots and publication, continued\<close>

text \<open>
  \<^verbatim>\<open>snapshotComputedState(state)\<close> allocates the snapshot object, the spread of the state.
  The getters it installs for the computed values are not data properties; the model keeps
  what they close over, the state and the snapshot's private \<^verbatim>\<open>cache\<close> map, in
  \<open>snapshotLocal\<close> under the snapshot's address. \<^verbatim>\<open>touchAffected\<close> only performs reads
  on its first argument, which is an untracked state here, so it leaves no trace.
\<close>

definition snapshotComputedState :: "store \<Rightarrow> addr \<Rightarrow> addr \<times> store" where
  "snapshotComputedState st s =
     (case snapshotCache st s of
        Some c \<Rightarrow> (c, st)
      | None \<Rightarrow>
          (let c = length (heap st);
               ob = \<lparr>kind = Plain,
                     props = filter (\<lambda>(k, d). k \<notin> set (computedNames st)) (spread (heap st) s)\<rparr>;
               cache = filter
                         (\<lambda>(key, e). \<not> isChanged (heap st) {} (VRef (cstate e)) (VRef s) (caffected e))
                         (computedCache st)
           in (c, st\<lparr>heap := heap st @ [ob],
                      snapshotCache := (snapshotCache st)(s \<mapsto> c),
                      snapshotLocal := (snapshotLocal st)(c \<mapsto> (s, cache))\<rparr>)))"

definition setState :: "store \<Rightarrow> addr \<Rightarrow> store" where
  "setState st s =
     (if object_is (VRef s) (VRef (state st)) then st
      else
        (let prevState = computedState st;
             (c, st1) = snapshotComputedState (st\<lparr>state := s\<rparr>) s
         in st1\<lparr>computedState := c, notified := notified st1 @ [(c, prevState)]\<rparr>))"

datatype exn = UserError | TypeError

datatype outcome = Done | Thrown exn

text \<open>
  \<^verbatim>\<open>flushMutations\<close>. When the root's record is not dirty and was never flushed,
  \<^verbatim>\<open>getFlushed()\<close> yields \<^verbatim>\<open>undefined\<close> and \<^verbatim>\<open>setState\<close> fails on it with a \<^verbatim>\<open>TypeError\<close>; the
  model reports the failure and leaves the store as it is at that point.
\<close>

definition flushMutations :: "store \<Rightarrow> outcome \<times> store" where
  "flushMutations st =
     (if map_of (mutationCache st) (state st) = None then (Done, st)
      else
        (case getFlushed st (VRef (state st)) of
           (VRef s, st1) \<Rightarrow> (Done, (setState st1 s)\<lparr>mutationCache := []\<rparr>)
         | (_, st1) \<Rightarrow> (Thrown TypeError, st1)))"

text \<open>
  \<^verbatim>\<open>$get\<close> and \<^verbatim>\<open>$set\<close> (the names \<open>get\<close> and \<open>set\<close> of the source are prefixed, \<open>set\<close> being
  taken). A setter function is represented by the state it returns.
\<close>

definition dollar_get :: "store \<Rightarrow> addr" where
  "dollar_get st = computedState st"

datatype set_arg = NewState addr | Setter addr

fun dollar_set :: "store \<Rightarrow> set_arg \<Rightarrow> store" where
  "dollar_set st (Setter s) = setState st s"
| "dollar_set st (NewState s) = setState st s"

section \<open>The draft traps\<close>

definition unlinkCache :: "store \<Rightarrow> addr \<Rightarrow> key \<Rightarrow> store" where
  "unlinkCache st target k =
     (case childrenCache st target of
        None \<Rightarrow> st
      | Some children \<Rightarrow>
          (case map_of children k of
             None \<Rightarrow> st
           | Some child \<Rightarrow>
               (let st1 = st\<lparr>childrenCache :=
                              (childrenCache st)(target \<mapsto> AList.delete k children)\<rparr>
                in case parentsCache st1 child of
                     None \<Rightarrow> st1
                   | Some ps \<Rightarrow>
                       st1\<lparr>parentsCache := (parentsCache st1)(child \<mapsto> removeAll target ps)\<rparr>)))"

text \<open>
  \<^verbatim>\<open>markDirty\<close> recurses into every parent with no guard against revisiting, so it does
  not return when the parent links form a cycle (the host ends the recursion with a stack
  overflow). It is a partial function; \<open>None\<close> is the run that does not return. The
  recursion is written with an explicit stack of pending targets, which visits the targets
  in the order of the source.
\<close>

definition mark_one :: "store \<Rightarrow> addr \<Rightarrow> store" where
  "mark_one st t =
     (let m = (case map_of (mutationCache st) t of
                 None \<Rightarrow> \<lparr>muts = [], dirty = False\<rparr> | Some m \<Rightarrow> m)
      in st\<lparr>mutationCache := AList.update t (m\<lparr>dirty := True\<rparr>) (mutationCache st)\<rparr>)"

definition parents_of :: "store \<Rightarrow> addr \<Rightarrow> addr list" where
  "parents_of st t = (case parentsCache st t of None \<Rightarrow> [] | Some ps \<Rightarrow> ps)"

partial_function (option) markDirty_stack :: "store \<Rightarrow> addr list \<Rightarrow> store option" where
  "markDirty_stack st ws =
     (case ws of
        [] \<Rightarrow> Some st
      | t # ts \<Rightarrow> markDirty_stack (mark_one st t) (parents_of st t @ ts))"

definition markDirty :: "store \<Rightarrow> addr \<Rightarrow> store option" where
  "markDirty st target = markDirty_stack st [target]"

datatype gres = Raw val | Draft addr

definition pending :: "store \<Rightarrow> addr \<Rightarrow> mutrec" where
  "pending st target =
     (case map_of (mutationCache st) target of
        None \<Rightarrow> \<lparr>muts = [], dirty = False\<rparr> | Some m \<Rightarrow> m)"

text \<open>The \<^verbatim>\<open>get\<close> trap: a proxiable child is linked to its parent and handed out as a draft.\<close>

definition link_child :: "store \<Rightarrow> addr \<Rightarrow> key \<Rightarrow> addr \<Rightarrow> store" where
  "link_child st target k child =
     (let children = (case childrenCache st target of None \<Rightarrow> [] | Some c \<Rightarrow> c);
          valueParents = (case parentsCache st child of None \<Rightarrow> [] | Some ps \<Rightarrow> ps)
      in st\<lparr>childrenCache := (childrenCache st)(target \<mapsto> AList.update k child children),
            parentsCache := (parentsCache st)
              (child \<mapsto> (if target \<in> set valueParents then valueParents
                          else valueParents @ [target]))\<rparr>)"

definition handler_get :: "store \<Rightarrow> addr \<Rightarrow> key \<Rightarrow> gres \<times> store" where
  "handler_get st target k =
     (case map_of (muts (pending st target)) k of
        None \<Rightarrow>
          (let v = reflect_get (heap st) target k
           in if \<not> canProxy (heap st) v then (Raw v, st)
              else (case v of
                      VRef child \<Rightarrow> (Draft child, link_child st target k child)
                    | _ \<Rightarrow> (Raw v, st)))
      | Some (MSet v) \<Rightarrow> (Raw v, st)
      | Some MDel \<Rightarrow> (Raw VUndef, st))"

datatype tres = Returned bool | Raised exn

definition after_write :: "store \<Rightarrow> tres \<times> store" where
  "after_write st =
     (if \<not> inAction st then
        (case flushMutations st of
           (Done, st1) \<Rightarrow> (Returned True, st1)
         | (Thrown e, st1) \<Rightarrow> (Raised e, st1))
      else (Returned True, st))"

definition setValue :: "store \<Rightarrow> addr \<Rightarrow> key \<Rightarrow> mutrec \<Rightarrow> val \<Rightarrow> (tres \<times> store) option" where
  "setValue st target k m v =
     (let st1 = unlinkCache st target k;
          st2 = st1\<lparr>mutationCache :=
                   AList.update target (m\<lparr>muts := AList.update k (MSet v) (muts m)\<rparr>)
                     (mutationCache st1)\<rparr>
      in case markDirty st2 target of
           None \<Rightarrow> None
         | Some st3 \<Rightarrow> Some (after_write st3))"

definition handler_set :: "store \<Rightarrow> addr \<Rightarrow> key \<Rightarrow> val \<Rightarrow> (tres \<times> store) option" where
  "handler_set st target k v =
     (let d0 = getOwnPropertyDescriptor (heap st) target k
      in if (case d0 of None \<Rightarrow> False | Some d \<Rightarrow> \<not> writable d \<and> \<not> configurable d)
         then Some (Returned False, st)
         else
           (let m = pending st target
            in case map_of (muts m) k of
                 Some (MSet prevValue) \<Rightarrow>
                   if object_is prevValue v then Some (Returned True, st)
                   else setValue st target k m v
               | Some MDel \<Rightarrow> setValue st target k m v
               | None \<Rightarrow>
                   if (case d0 of None \<Rightarrow> False | Some d \<Rightarrow> strict_eq (pval d) v)
                   then Some (Returned True, st)
                   else setValue st target k m v))"

text \<open>
  The \<^verbatim>\<open>deleteProperty\<close> trap stores the record, marks it dirty, and only then enters the
  deletion into the record, which by then may have been marked by \<^verbatim>\<open>markDirty\<close>.
\<close>

definition handler_deleteProperty :: "store \<Rightarrow> addr \<Rightarrow> key \<Rightarrow> (tres \<times> store) option" where
  "handler_deleteProperty st target k =
     (let d0 = getOwnPropertyDescriptor (heap st) target k
      in if (case d0 of None \<Rightarrow> False | Some d \<Rightarrow> \<not> configurable d)
         then Some (Returned False, st)
         else
           (let m = pending st target
            in if d0 = None \<or> map_of (muts m) k = Some MDel then Some (Returned True, st)
               else
                 (let st1 = unlinkCache st target k;
                      st2 = st1\<lparr>mutationCache := AList.update target m (mutationCache st1)\<rparr>
                  in case markDirty st2 target of
                       None \<Rightarrow> None
                     | Some st3 \<Rightarrow>
                         (let m3 = pending st3 target;
                              st4 = st3\<lparr>mutationCache :=
                                      AList.update target
                                        (m3\<lparr>muts := AList.update k MDel (muts m3)\<rparr>)
                                        (mutationCache st3)\<rparr>
                          in Some (after_write st4)))))"

section \<open>Actions\<close>

text \<open>
  An action is represented by what it does to the store: the sequence of trap invocations
  on draft views, calls of further actions, and possibly a \<^verbatim>\<open>throw\<close>. The target \<open>Root\<close>
  is \<^verbatim>\<open>this\<close>, which the store proxy forwards to \<^verbatim>\<open>proxy(_state)\<close> for every key that is a
  state key (not a store method, an action or a computed value); \<open>View a\<close> is a draft
  obtained earlier for the object at \<open>a\<close>. A trap that returns \<^verbatim>\<open>false\<close> makes the assignment
  or \<^verbatim>\<open>delete\<close> throw a \<^verbatim>\<open>TypeError\<close> when the acting code is strict, and is ignored
  otherwise; \<open>strict\<close> says which. A thrown exception ends the run: actions that catch
  are not represented.
\<close>

datatype tgt = Root | View addr

datatype cmd =
    Read tgt key
  | Assign tgt key val
  | Remove tgt key
  | Invoke "cmd list"
  | Raise

fun resolve :: "store \<Rightarrow> tgt \<Rightarrow> addr" where
  "resolve st Root = state st"
| "resolve st (View a) = a"

definition trap_outcome :: "bool \<Rightarrow> (tres \<times> store) option \<Rightarrow> (outcome \<times> store) option" where
  "trap_outcome strict r =
     (case r of
        None \<Rightarrow> None
      | Some (Returned ok, st) \<Rightarrow>
          if \<not> ok \<and> strict then Some (Thrown TypeError, st) else Some (Done, st)
      | Some (Raised e, st) \<Rightarrow> Some (Thrown e, st))"

fun exec :: "bool \<Rightarrow> store \<Rightarrow> cmd \<Rightarrow> (outcome \<times> store) option"
  and run :: "bool \<Rightarrow> store \<Rightarrow> cmd list \<Rightarrow> (outcome \<times> store) option"
  and act :: "bool \<Rightarrow> store \<Rightarrow> cmd list \<Rightarrow> (outcome \<times> store) option"
where
  "exec strict st (Read t k) = Some (Done, snd (handler_get st (resolve st t) k))"
| "exec strict st (Assign t k v) = trap_outcome strict (handler_set st (resolve st t) k v)"
| "exec strict st (Remove t k) = trap_outcome strict (handler_deleteProperty st (resolve st t) k)"
| "exec strict st (Invoke body) = act strict st body"
| "exec strict st Raise = Some (Thrown UserError, st)"
| "run strict st [] = Some (Done, st)"
| "run strict st (c # cs) =
     (case exec strict st c of
        None \<Rightarrow> None
      | Some (Thrown e, st1) \<Rightarrow> Some (Thrown e, st1)
      | Some (Done, st1) \<Rightarrow> run strict st1 cs)"
| "act strict st body =
     (if inAction st then run strict st body
      else
        (case run strict (st\<lparr>inAction := True\<rparr>) body of
           None \<Rightarrow> None
         | Some (Thrown e, st1) \<Rightarrow> Some (Thrown e, st1)
         | Some (Done, st1) \<Rightarrow>
             (case flushMutations st1 of
                (Thrown e, st2) \<Rightarrow> Some (Thrown e, st2)
              | (Done, st2) \<Rightarrow> Some (Done, st2\<lparr>inAction := False\<rparr>))))"

section \<open>Store construction\<close>

definition getterNamePrefix :: string where
  "getterNamePrefix = ''troza/getter:''"

fun is_function :: "val \<Rightarrow> bool" where
  "is_function (VFun f) = True"
| "is_function _ = False"

definition is_getter :: "key \<times> desc \<Rightarrow> bool" where
  "is_getter kd =
     (take (length getterNamePrefix) (fst kd) = getterNamePrefix \<and> is_function (pval (snd kd)))"

definition create :: "heap \<Rightarrow> addr \<Rightarrow> store" where
  "create h0 slice =
     (let h1 = fst (readonly h0 (VRef slice) True {});
          ps = (if slice < length h1 then props (h1 ! slice) else []);
          computed = map (\<lambda>kd. drop (length getterNamePrefix) (fst kd)) (filter is_getter ps);
          initialState = \<lparr>kind = Plain,
                           props = filter (\<lambda>kd. \<not> is_function (pval (snd kd))) ps\<rparr>;
          st0 = \<lparr>heap = h1 @ [initialState], state = length h1, computedState = length h1,
                 inAction = False, mutationCache = [], flushCache = Map.empty,
                 childrenCache = Map.empty, parentsCache = Map.empty,
                 snapshotCache = Map.empty, computedNames = computed, computedCache = [],
                 snapshotLocal = Map.empty, evaluated = [], notified = []\<rparr>;
          (c, st1) = snapshotComputedState st0 (length h1)
      in st1\<lparr>computedState := c\<rparr>)"


section \<open>Example stores\<close>

text \<open>
  The slice \<^verbatim>\<open>{ count: 0, nested: { value: 10 } }\<close> as the caller builds it: every property
  writable, enumerable and configurable.
\<close>

definition plain_prop :: "val \<Rightarrow> desc" where
  "plain_prop v = \<lparr>pval = v, writable = True, enumerable = True, configurable = True\<rparr>"

definition counter_heap :: heap where
  "counter_heap =
     [\<lparr>kind = Plain, props = [(''count'', plain_prop (VNum 0)), (''nested'', plain_prop (VRef 1))]\<rparr>,
      \<lparr>kind = Plain, props = [(''value'', plain_prop (VNum 10))]\<rparr>]"

definition counter_store :: store where
  "counter_store = create counter_heap 0"


section \<open>What the caller can still do to an object\<close>

text \<open>
  Code outside the store holds ordinary references. Its assignment \<^verbatim>\<open>o.k = v\<close> to an
  object with data properties succeeds when \<^verbatim>\<open>k\<close> is a writable own property or is absent
  (the objects stay extensible), and is rejected, with result \<open>None\<close>, when \<^verbatim>\<open>k\<close> is an own
  property that is not writable.
\<close>

definition host_assign :: "heap \<Rightarrow> addr \<Rightarrow> key \<Rightarrow> val \<Rightarrow> heap option" where
  "host_assign h a k v =
     (case getOwnPropertyDescriptor h a k of
        Some d \<Rightarrow> if writable d then Some (defineProperty h a k (d\<lparr>pval := v\<rparr>)) else None
      | None \<Rightarrow>
          Some (defineProperty h a k
                  \<lparr>pval = v, writable = True, enumerable = True, configurable = True\<rparr>))"

text \<open>
  Object graphs: \<open>edge\<close> is any property holding a reference, \<open>fedge\<close> an edge that
  \<^verbatim>\<open>readonly\<close> follows (a configurable property whose value \<^verbatim>\<open>canProxy\<close> accepts). An object is
  frozen when none of its configurable properties is writable.
\<close>

definition edge :: "heap \<Rightarrow> addr \<Rightarrow> addr \<Rightarrow> bool" where
  "edge h b c =
     list_ex (\<lambda>k. case getOwnPropertyDescriptor h b k of
                     None \<Rightarrow> False | Some d \<Rightarrow> pval d = VRef c) (ownKeys h b)"

definition fedge :: "heap \<Rightarrow> addr \<Rightarrow> addr \<Rightarrow> bool" where
  "fedge h b c =
     list_ex (\<lambda>k. case getOwnPropertyDescriptor h b k of
                     None \<Rightarrow> False
                   | Some d \<Rightarrow> configurable d \<and> pval d = VRef c \<and> canProxy h (VRef c))
       (ownKeys h b)"

definition frozen_obj :: "heap \<Rightarrow> addr \<Rightarrow> bool" where
  "frozen_obj h b =
     list_all (\<lambda>k. case getOwnPropertyDescriptor h b k of
                      None \<Rightarrow> True | Some d \<Rightarrow> \<not> (configurable d \<and> writable d))
       (ownKeys h b)"

definition reachable :: "heap \<Rightarrow> addr \<Rightarrow> addr \<Rightarrow> bool" where
  "reachable h a b \<longleftrightarrow> (a, b) \<in> {(x, y). edge h x y}\<^sup>*"

definition freachable :: "heap \<Rightarrow> addr \<Rightarrow> addr \<Rightarrow> bool" where
  "freachable h a b \<longleftrightarrow> (a, b) \<in> {(x, y). fedge h x y}\<^sup>*"

text \<open>
  The slice \<^verbatim>\<open>{ user: new User({ prefs: { theme: "dark" } }) }\<close>: a plain object behind a class
  instance.
\<close>

definition instance_heap :: heap where
  "instance_heap =
     [\<lparr>kind = Plain, props = [(''user'', plain_prop (VRef 1))]\<rparr>,
      \<lparr>kind = Exotic, props = [(''prefs'', plain_prop (VRef 2))]\<rparr>,
      \<lparr>kind = Plain, props = [(''theme'', plain_prop (VStr ''dark''))]\<rparr>]"


text \<open>
  A slice with a property \<^verbatim>\<open>id\<close> that was defined non-writable and non-configurable, and a
  slice holding \<^verbatim>\<open>NaN\<close>.
\<close>

definition locked_heap :: heap where
  "locked_heap =
     [\<lparr>kind = Plain,
       props = [(''id'', \<lparr>pval = VNum 7, writable = False, enumerable = True, configurable = False\<rparr>),
                (''count'', plain_prop (VNum 0))]\<rparr>]"

definition locked_store :: store where
  "locked_store = create locked_heap 0"

definition nan_heap :: heap where
  "nan_heap = [\<lparr>kind = Plain, props = [(''x'', plain_prop VNaN)]\<rparr>]"

definition nan_store :: store where
  "nan_store = create nan_heap 0"

text \<open>
  The store after the action \<^verbatim>\<open>{ this.count = 1; throw new Error() }\<close> was dispatched on the
  counter store.
\<close>

definition after_throw :: store where
  "after_throw =
     (case act True counter_store [Assign Root ''count'' (VNum 1), Raise] of
        Some (out, st) \<Rightarrow> st | None \<Rightarrow> counter_store)"

text \<open>
  An assignment that stores what the draft already shows: the key has a pending
  \<^verbatim>\<open>["set", v]\<close> with the same value, or has no pending operation and is an own property
  of the snapshot object holding the same value. The value \<^verbatim>\<open>NaN\<close> is left out, and so is a
  key that the trap refuses to write.
\<close>

definition identical_write :: "store \<Rightarrow> cmd \<Rightarrow> bool" where
  "identical_write st c =
     (case c of
        Assign tg k v \<Rightarrow>
          (let t = resolve st tg; d0 = getOwnPropertyDescriptor (heap st) t k
           in \<not> (case d0 of None \<Rightarrow> False | Some d \<Rightarrow> \<not> writable d \<and> \<not> configurable d)
              \<and> (case map_of (muts (pending st t)) k of
                   Some (MSet pv) \<Rightarrow> pv = v
                 | Some MDel \<Rightarrow> False
                 | None \<Rightarrow> (case d0 of None \<Rightarrow> False | Some d \<Rightarrow> pval d = v \<and> v \<noteq> VNaN)))
      | _ \<Rightarrow> False)"

section \<open>Invariants of the traversals\<close>

text \<open>
  Auxiliary notions for the proofs about \<^verbatim>\<open>readonly\<close>: a descriptor may only lose
  \<^verbatim>\<open>writable\<close>; a heap is a frozen version of another when it has the same objects and
  keys and every descriptor has at most lost \<^verbatim>\<open>writable\<close>; an object is finished when it
  is frozen and everything \<^verbatim>\<open>readonly\<close> would visit from it has been visited.
\<close>

definition dle :: "desc \<Rightarrow> desc \<Rightarrow> bool" where
  "dle d d' \<longleftrightarrow> d' = d \<or> d' = d\<lparr>writable := False\<rparr>"

definition frz :: "heap \<Rightarrow> heap \<Rightarrow> bool" where
  "frz h h' \<longleftrightarrow>
     length h' = length h
     \<and> (\<forall>a. kind (h' ! a) = kind (h ! a))
     \<and> (\<forall>a k. rel_option dle (getOwnPropertyDescriptor h a k) (getOwnPropertyDescriptor h' a k))"

definition finished :: "heap \<Rightarrow> addr set \<Rightarrow> addr \<Rightarrow> bool" where
  "finished h V b \<longleftrightarrow> frozen_obj h b \<and> (\<forall>c. fedge h b c \<longrightarrow> c \<in> V)"

definition ro_ok :: "heap \<Rightarrow> addr set \<Rightarrow> heap \<times> addr set \<Rightarrow> bool" where
  "ro_ok h V r \<longleftrightarrow>
     (case r of (h', V') \<Rightarrow>
        frz h h' \<and> V \<subseteq> V' \<and> (\<forall>b\<in>V. h' ! b = h ! b) \<and> (\<forall>b\<in>V' - V. finished h' V' b))"

definition rok_ok :: "heap \<Rightarrow> addr \<Rightarrow> addr set \<Rightarrow> key list \<Rightarrow> heap \<times> addr set \<Rightarrow> bool" where
  "rok_ok h a V ks r \<longleftrightarrow>
     (case r of (h', V') \<Rightarrow>
        frz h h' \<and> V \<subseteq> V' \<and> (\<forall>b\<in>V. b \<noteq> a \<longrightarrow> h' ! b = h ! b)
        \<and> (\<forall>b\<in>V' - V. finished h' V' b)
        \<and> (\<forall>k. k \<notin> set ks \<longrightarrow> getOwnPropertyDescriptor h' a k = getOwnPropertyDescriptor h a k)
        \<and> (\<forall>k\<in>set ks. \<forall>d. getOwnPropertyDescriptor h' a k = Some d \<longrightarrow> configurable d \<longrightarrow>
              \<not> writable d \<and> (\<forall>c. pval d = VRef c \<longrightarrow> canProxy h' (VRef c) \<longrightarrow> c \<in> V')))"



section \<open>Notions for the commit\<close>

text \<open>
  What a committed copy has to look like. \<open>flushed_val\<close> is the value \<^verbatim>\<open>getFlushed\<close>
  hands back for a value whose object, if it carries a mutation record, has been flushed:
  the copy registered in \<^verbatim>\<open>flushCache\<close>, and the value itself when there is no record.
  \<open>shown od v e\<close> says that the descriptor \<open>od\<close> is there, holds \<open>v\<close> and is enumerable
  or not as \<open>e\<close> says. \<open>key_committed st x ms n k\<close> says that the copy \<open>n\<close> of \<open>x\<close> is
  right at key \<open>k\<close> for the pending operations \<open>ms\<close>: a pending \<^verbatim>\<open>set\<close> is there with its
  value (enumerable as the old property was, or enumerable when the key is new), a pending
  \<^verbatim>\<open>del\<close> is absent, and an untouched key carries the flushed value of the original (the
  original value itself under a non-configurable property). \<open>committed st x\<close> says that
  \<open>x\<close> has a copy which is right at every key.
\<close>

definition is_dirty :: "store \<Rightarrow> addr \<Rightarrow> bool" where
  "is_dirty st a = (case map_of (mutationCache st) a of None \<Rightarrow> False | Some m \<Rightarrow> dirty m)"

definition has_rec :: "store \<Rightarrow> addr \<Rightarrow> bool" where
  "has_rec st a = (map_of (mutationCache st) a \<noteq> None)"

definition flushed_val :: "store \<Rightarrow> val \<Rightarrow> val" where
  "flushed_val st v =
     (case v of
        VRef c \<Rightarrow>
          (case map_of (mutationCache st) c of
             None \<Rightarrow> v
           | Some m \<Rightarrow> (case flushCache st c of None \<Rightarrow> VUndef | Some n \<Rightarrow> VRef n))
      | _ \<Rightarrow> v)"

definition clean_ref :: "store \<Rightarrow> val \<Rightarrow> bool" where
  "clean_ref st v = (case v of VRef c \<Rightarrow> \<not> is_dirty st c | _ \<Rightarrow> True)"





text \<open>
  How a store may change while a commit runs: only the heap, the dirty flags and
  \<^verbatim>\<open>flushCache\<close> change; no record appears or disappears and no pending operation changes;
  flags are only cleared; an object that is not dirty keeps its \<^verbatim>\<open>flushCache\<close> entry; an
  object whose flag was cleared has a freshly allocated copy. For heaps: existing objects
  keep their keys and values, apart from the property slots in \<open>K\<close> and from \<^verbatim>\<open>writable\<close>
  flags that are cleared.
\<close>

definition same_rest :: "store \<Rightarrow> store \<Rightarrow> bool" where
  "same_rest st st' \<longleftrightarrow>
     state st' = state st \<and> computedState st' = computedState st \<and> inAction st' = inAction st
     \<and> childrenCache st' = childrenCache st \<and> parentsCache st' = parentsCache st
     \<and> snapshotCache st' = snapshotCache st \<and> computedNames st' = computedNames st
     \<and> computedCache st' = computedCache st \<and> snapshotLocal st' = snapshotLocal st
     \<and> evaluated st' = evaluated st \<and> notified st' = notified st"


definition hfr :: "(addr \<times> key) set \<Rightarrow> heap \<Rightarrow> heap \<Rightarrow> bool" where
  "hfr K h h' \<longleftrightarrow>
     length h \<le> length h'
     \<and> (\<forall>a k. a < length h \<longrightarrow> (a, k) \<notin> K \<longrightarrow>
            rel_option dle (getOwnPropertyDescriptor h a k) (getOwnPropertyDescriptor h' a k))"







section \<open>Notions for a batch\<close>



text \<open>
  \<open>par\<close> is the parent relation kept in \<^verbatim>\<open>parentsCache\<close>; an object is written when its
  record holds a pending operation; \<open>anc st a\<close> says that \<open>a\<close> is a written object or,
  through the parent links, an ancestor of one.
\<close>

definition par :: "store \<Rightarrow> (addr \<times> addr) set" where
  "par st = {(c, p). p \<in> set (parents_of st c)}"

definition written :: "store \<Rightarrow> addr \<Rightarrow> bool" where
  "written st w \<longleftrightarrow> muts (pending st w) \<noteq> []"




definition batch_frame :: "store \<Rightarrow> store \<Rightarrow> bool" where
  "batch_frame st st' \<longleftrightarrow>
     heap st' = heap st \<and> state st' = state st \<and> computedState st' = computedState st
     \<and> flushCache st' = flushCache st \<and> snapshotCache st' = snapshotCache st
     \<and> computedNames st' = computedNames st \<and> computedCache st' = computedCache st
     \<and> snapshotLocal st' = snapshotLocal st \<and> evaluated st' = evaluated st
     \<and> notified st' = notified st"

text \<open>
  What \<^verbatim>\<open>markDirty\<close> starts from and what it establishes. The \<^verbatim>\<open>deleteProperty\<close> trap
  marks before it enters the deletion into the record, so the objects \<open>W\<close> about to be
  written count as written here.
\<close>

definition ancw :: "addr set \<Rightarrow> store \<Rightarrow> addr \<Rightarrow> bool" where
  "ancw W st a \<longleftrightarrow> (\<exists>w. (written st w \<or> w \<in> W) \<and> (w, a) \<in> (par st)\<^sup>*)"




section \<open>What one action publishes\<close>






section \<open>Reading a computed value\<close>

text \<open>
  The getter that \<^verbatim>\<open>snapshotComputedState\<close> installs on a snapshot for the computed value
  \<open>key\<close>, for the snapshot at \<open>c\<close>. It answers from the snapshot's private \<^verbatim>\<open>cache\<close>, else from
  the shared \<^verbatim>\<open>computedCache\<close> when \<^verbatim>\<open>isChanged\<close> finds the entry's state unchanged at the
  recorded accesses, and else evaluates. The evaluator \<^verbatim>\<open>getter.call(thisArg)\<close> together with
  the tracking proxy it reads through is the parameter \<open>ev\<close>: a function of the heap and
  the state that yields the value and the access map. Each evaluation is logged in
  \<open>evaluated\<close>. The new entry is promoted to \<^verbatim>\<open>computedCache\<close> when there is no entry for the
  key or the state is still the latest. \<^verbatim>\<open>touchAffected\<close> only replays reads and leaves no
  trace here; evaluators that read other computed values or change the store are not
  represented.
\<close>

definition set_local :: "store \<Rightarrow> addr \<Rightarrow> addr \<Rightarrow> (string \<times> centry) list \<Rightarrow> string \<Rightarrow> centry \<Rightarrow> store" where
  "set_local st c s cache key e =
     st\<lparr>snapshotLocal := (snapshotLocal st)(c \<mapsto> (s, AList.update key e cache))\<rparr>"

definition computed_get ::
  "(heap \<Rightarrow> addr \<Rightarrow> val \<times> affected) \<Rightarrow> store \<Rightarrow> addr \<Rightarrow> string \<Rightarrow> val \<times> store" where
  "computed_get ev st c key =
     (case snapshotLocal st c of
        None \<Rightarrow> (VUndef, st)
      | Some (s, cache) \<Rightarrow>
          (case map_of cache key of
             Some e \<Rightarrow> (cachedResult e, st)
           | None \<Rightarrow>
               (case (case map_of (computedCache st) key of
                        None \<Rightarrow> None
                      | Some e \<Rightarrow>
                          if \<not> isChanged (heap st) {} (VRef (cstate e)) (VRef s) (caffected e)
                          then Some e else None) of
                  Some e \<Rightarrow>
                    (cachedResult e,
                     set_local st c s cache key
                       \<lparr>cstate = s, caffected = caffected e, cachedResult = cachedResult e\<rparr>)
                | None \<Rightarrow>
                    (let (v, aff) = ev (heap st) s;
                         st1 = st\<lparr>evaluated := evaluated st @ [(key, s)]\<rparr>;
                         e = \<lparr>cstate = s, caffected = aff, cachedResult = v\<rparr>;
                         (promote, st2) =
                           (if map_of (computedCache st1) key = None then (True, st1)
                            else (case getFlushed st1 (VRef (state st1)) of
                                    (fs, st') \<Rightarrow>
                                      (\<not> isChanged (heap st') {} (VRef s) fs aff, st')));
                         st3 = (if promote
                                then st2\<lparr>computedCache := AList.update key e (computedCache st2)\<rparr>
                                else st2)
                     in (v, set_local st3 c s cache key e)))))"

text \<open>
  The access map \<open>aff\<close> of an evaluation against the state \<open>s1\<close> that read only along the
  path \<open>a.b\<close>: on \<open>s1\<close> nothing but the key \<open>a\<close> was read, and on the object under \<open>a\<close>
  nothing but the key \<open>b\<close>; no existence check and no enumeration were recorded on either.
  Two states agree under \<open>a.b\<close> when both hold an object under \<open>a\<close> and these hold the
  identical value under \<open>b\<close> (or when they hold the identical non-object under \<open>a\<close>).
\<close>

definition reads_only :: "used \<Rightarrow> key \<Rightarrow> bool" where
  "reads_only u k \<longleftrightarrow>
     has_keys u = [] \<and> \<not> all_own_keys u \<and> has_own_keys u = [] \<and> list_all (\<lambda>j. j = k) (read_keys u)"

definition reads_only_under :: "heap \<Rightarrow> affected \<Rightarrow> addr \<Rightarrow> key \<Rightarrow> key \<Rightarrow> bool" where
  "reads_only_under h aff s1 a b \<longleftrightarrow>
     (case map_of aff s1 of None \<Rightarrow> False | Some u \<Rightarrow> reads_only u a)
     \<and> (case reflect_get h s1 a of
          VRef a1 \<Rightarrow> (case map_of aff a1 of None \<Rightarrow> False | Some u \<Rightarrow> reads_only u b)
        | _ \<Rightarrow> True)"

definition same_under :: "heap \<Rightarrow> addr \<Rightarrow> addr \<Rightarrow> key \<Rightarrow> key \<Rightarrow> bool" where
  "same_under h s1 s2 a b \<longleftrightarrow>
     (case reflect_get h s1 a of
        VRef a1 \<Rightarrow>
          (case reflect_get h s2 a of
             VRef a2 \<Rightarrow> reflect_get h a1 b = reflect_get h a2 b
           | _ \<Rightarrow> False)
      | v \<Rightarrow> reflect_get h s2 a = v)"

text \<open>
  The counter store after the action \<^verbatim>\<open>{ this.nested.other = 3 }\<close>; the evaluator of a
  computed value \<^verbatim>\<open>c\<close> that returns \<^verbatim>\<open>this.nested.value\<close>, with the accesses it makes; the
  cache entry of its evaluation against the first state; and the store holding that entry.
\<close>

definition after_nested_write :: store where
  "after_nested_write =
     (case act False counter_store [Read Root ''nested'', Assign (View 1) ''other'' (VNum 3)] of
        Some (out, st) \<Rightarrow> st | None \<Rightarrow> counter_store)"

definition value_ev :: "heap \<Rightarrow> addr \<Rightarrow> val \<times> affected" where
  "value_ev h s =
     (case reflect_get h s ''nested'' of
        VRef n \<Rightarrow>
          (reflect_get h n ''value'',
           [(s, \<lparr>has_keys = [], all_own_keys = False, has_own_keys = [], read_keys = [''nested'']\<rparr>),
            (n, \<lparr>has_keys = [], all_own_keys = False, has_own_keys = [], read_keys = [''value'']\<rparr>)])
      | _ \<Rightarrow>
          (VUndef,
           [(s, \<lparr>has_keys = [], all_own_keys = False, has_own_keys = [],
                 read_keys = [''nested'']\<rparr>)]))"

definition value_entry :: centry where
  "value_entry =
     \<lparr>cstate = state counter_store,
      caffected =
        [(state counter_store,
          \<lparr>has_keys = [], all_own_keys = False, has_own_keys = [], read_keys = [''nested'']\<rparr>),
         (1, \<lparr>has_keys = [], all_own_keys = False, has_own_keys = [], read_keys = [''value'']\<rparr>)],
      cachedResult = VNum 10\<rparr>"

definition reading_store :: store where
  "reading_store = after_nested_write\<lparr>computedCache := [(''c'', value_entry)]\<rparr>"


(*PROOFS*)

section \<open>Termination of the traversals\<close>

lemma length_defineProperty [simp]: "length (defineProperty h a k d) = length h"
  by (simp add: defineProperty_def)

lemma length_freeze_prop [simp]: "length (freeze_prop h a k d) = length h"
  by (simp add: freeze_prop_def)

lemma readonly_dom_mono:
  "readonly_readonly_keys_dom (Inl (h, target, deep, visited)) \<Longrightarrow>
     length (fst (readonly h target deep visited)) = length h
     \<and> visited \<subseteq> snd (readonly h target deep visited)"
  "readonly_readonly_keys_dom (Inr (h, a, deep, visited, ks)) \<Longrightarrow>
     length (fst (readonly_keys h a deep visited ks)) = length h
     \<and> visited \<subseteq> snd (readonly_keys h a deep visited ks)"
proof (induct rule: readonly_readonly_keys.pinduct)
  case (1 h target deep visited)
  then show ?case
    by (auto simp: readonly.psimps split: val.splits)
next
  case (2 h a deep visited)
  then show ?case by (simp add: readonly_keys.psimps)
next
  case (3 h a deep visited k ks)
  show ?case
  proof (cases "getOwnPropertyDescriptor h a k")
    case None
    then show ?thesis using 3(1,2) by (simp add: readonly_keys.psimps)
  next
    case (Some d)
    show ?thesis
    proof (cases "configurable d")
      case False
      then show ?thesis using 3(1,3) Some by (simp add: readonly_keys.psimps)
    next
      case True
      show ?thesis
      proof (cases "deep \<and> truthy (pval d) \<and> canProxy h (pval d)")
        case rec: True
        obtain h1 v1 where r: "readonly h (pval d) True visited = (h1, v1)"
          by (cases "readonly h (pval d) True visited")
        from 3(4)[OF Some _ rec] True r
        have a: "length h1 = length h" "visited \<subseteq> v1" by auto
        from 3(5)[OF Some _ rec r[symmetric]] True
        have b: "length (fst (readonly_keys (freeze_prop h1 a k d) a deep v1 ks)) = length h1"
          "v1 \<subseteq> snd (readonly_keys (freeze_prop h1 a k d) a deep v1 ks)" by auto
        show ?thesis using 3(1) Some True rec r a b
          by (auto simp: readonly_keys.psimps)
      next
        case norec: False
        from 3(6)[OF Some _ norec] True
        show ?thesis using 3(1) Some norec by (auto simp: readonly_keys.psimps)
      qed
    qed
  qed
qed

lemma unvisited_insert:
  "a < n \<Longrightarrow> a \<notin> visited \<Longrightarrow> unvisited n (insert a visited) < unvisited n visited"
  unfolding unvisited_def
  by (intro psubset_card_mono) auto

lemma unvisited_mono:
  "visited \<subseteq> visited' \<Longrightarrow> unvisited n visited' \<le> unvisited n visited"
  unfolding unvisited_def
  by (intro card_mono) auto

termination readonly
proof (relation "inv_image (less_than <*lex*> less_than)
    (\<lambda>x. case x of Inl (h, t, d, vis) \<Rightarrow> (unvisited (length h) vis, 0)
               | Inr (h, a, d, vis, ks) \<Rightarrow> (unvisited (length h) vis, Suc (length ks)))",
    goal_cases)
  case 1
  then show ?case by auto
next
  case (2 h target deep visited a)
  then show ?case by (auto simp: unvisited_insert)
next
  case 3
  then show ?case by simp
next
  case 4
  then show ?case by simp
next
  case 5
  then show ?case by simp
next
  case (6 h a deep visited k ks d h1 visited1)
  then show ?case
    using readonly_dom_mono(1)[of h "pval d" True visited]
    by (auto dest!: sym[of "(h1, visited1)"] intro: le_neq_implies_less
        dest: unvisited_mono[of _ _ "length h"])
next
  case 7
  then show ?case by simp
qed

lemma finite_dirty_set [simp]: "finite (dirty_set mc)"
proof -
  have "dirty_set mc \<subseteq> fst ` set mc"
    by (auto simp: dirty_set_def dest!: map_of_SomeD intro: rev_image_eqI)
  then show ?thesis by (rule finite_subset) simp
qed

lemma dirty_set_clear:
  "dirty_set (AList.update ob (m\<lparr>dirty := False\<rparr>) mc) = dirty_set mc - {ob}"
  by (auto simp: dirty_set_def update_conv')

lemma mutationCache_flush_set [simp]:
  "mutationCache (flush_set st ob n k v) = mutationCache st"
  by (simp add: flush_set_def Let_def split: option.splits)

lemma mutationCache_alloc_copy [simp]:
  "mutationCache (alloc_copy st ob) = mutationCache st"
  by (simp add: alloc_copy_def)

lemma mutationCache_clear_dirty [simp]:
  "mutationCache (clear_dirty st ob m) = AList.update ob (m\<lparr>dirty := False\<rparr>) (mutationCache st)"
  by (simp add: clear_dirty_def)

lemma getFlushed_dom_dirty:
  "getFlushed_getFlushed_keys_dom (Inl (st, v)) \<Longrightarrow>
     dirty_set (mutationCache (snd (getFlushed st v))) \<subseteq> dirty_set (mutationCache st)"
  "getFlushed_getFlushed_keys_dom (Inr (st, ob, n, ms, ks)) \<Longrightarrow>
     dirty_set (mutationCache (getFlushed_keys st ob n ms ks)) \<subseteq> dirty_set (mutationCache st)"
proof (induct rule: getFlushed_getFlushed_keys.pinduct)
  case (1 st v)
  show ?case
  proof (cases v)
    case (VRef ob)
    show ?thesis
    proof (cases "map_of (mutationCache st) ob")
      case None
      then show ?thesis using 1(1) VRef by (simp add: getFlushed.psimps)
    next
      case (Some m)
      show ?thesis
      proof (cases "dirty m")
        case False
        then show ?thesis using 1(1) VRef Some
          by (simp add: getFlushed.psimps split: option.splits)
      next
        case True
        from 1(2)[OF VRef Some] True
        have "dirty_set (mutationCache (getFlushed_keys (alloc_copy (clear_dirty st ob m) ob) ob
                 (length (heap st)) (muts m) (uniq (ownKeys (heap st) ob @ map fst (muts m)))))
              \<subseteq> dirty_set (mutationCache (alloc_copy (clear_dirty st ob m) ob))"
          by simp
        then show ?thesis using 1(1) VRef Some True
          by (auto simp: getFlushed.psimps dirty_set_clear)
      qed
    qed
  qed (use 1(1) in \<open>simp_all add: getFlushed.psimps\<close>)
next
  case (2 st ob newObj ms)
  then show ?case by (simp add: getFlushed_keys.psimps)
next
  case (3 st ob newObj ms k ks)
  note dom = 3(1)
  show ?case
  proof (cases "map_of ms k")
    case None
    show ?thesis
    proof (cases "getOwnPropertyDescriptor (heap st) newObj k \<noteq> None")
      case True
      from 3(2)[OF None True] show ?thesis using dom None True
        by (simp add: getFlushed_keys.psimps)
    next
      case nonew: False
      show ?thesis
      proof (cases "getOwnPropertyDescriptor (heap st) ob k")
        case nodesc: None
        from 3(3)[OF None nonew nodesc] show ?thesis using dom None nonew nodesc
          by (simp add: getFlushed_keys.psimps)
      next
        case (Some d)
        show ?thesis
        proof (cases "configurable d")
          case True
          obtain v1 st1 where r: "getFlushed st (reflect_get (heap st) ob k) = (v1, st1)"
            by (cases "getFlushed st (reflect_get (heap st) ob k)")
          from 3(4)[OF None nonew Some True] r
          have a: "dirty_set (mutationCache st1) \<subseteq> dirty_set (mutationCache st)" by simp
          from 3(5)[OF None nonew Some True r[symmetric]]
          have b: "dirty_set (mutationCache (getFlushed_keys
                     (st1\<lparr>heap := defineProperty (heap st1) newObj k (d\<lparr>pval := v1\<rparr>)\<rparr>)
                     ob newObj ms ks)) \<subseteq> dirty_set (mutationCache st1)" by simp
          show ?thesis using dom None nonew Some True r a b
            by (auto simp: getFlushed_keys.psimps)
        next
          case False
          from 3(6)[OF None nonew Some False] show ?thesis using dom None nonew Some False
            by (simp add: getFlushed_keys.psimps)
        qed
      qed
    qed
  next
    case (Some mu)
    show ?thesis
    proof (cases mu)
      case (MSet v)
      from 3(7)[OF Some MSet] show ?thesis using dom Some MSet
        by (simp add: getFlushed_keys.psimps)
    next
      case MDel
      from 3(8)[OF Some MDel] show ?thesis using dom Some MDel
        by (simp add: getFlushed_keys.psimps)
    qed
  qed
qed

lemma getFlushed_dom_card:
  "getFlushed_getFlushed_keys_dom (Inl (st, v)) \<Longrightarrow> (x, y) = getFlushed st v \<Longrightarrow>
     card (dirty_set (mutationCache y)) \<noteq> card (dirty_set (mutationCache st)) \<Longrightarrow>
     card (dirty_set (mutationCache y)) < card (dirty_set (mutationCache st))"
  using getFlushed_dom_dirty(1)[of st v]
    card_mono[OF finite_dirty_set, of "dirty_set (mutationCache y)" "mutationCache st"]
  by (auto dest!: sym[of "(x, y)"])

lemma card_dirty_less:
  assumes "map_of mc ob = Some m" "dirty m"
  shows "card (dirty_set mc - {ob}) < card (dirty_set mc)"
proof -
  have "ob \<in> dirty_set mc" using assms by (auto simp: dirty_set_def)
  then show ?thesis by (rule card_Diff1_less[OF finite_dirty_set])
qed

termination getFlushed
  apply (relation "inv_image (less_than <*lex*> less_than)
    (\<lambda>x. case x of Inl (st, v) \<Rightarrow> (card (dirty_set (mutationCache st)), 0)
               | Inr (st, ob, n, ms, ks) \<Rightarrow>
                   (card (dirty_set (mutationCache st)), Suc (length ks)))")
  apply (auto simp: dirty_set_clear card_dirty_less intro: getFlushed_dom_card)
  done

lemma unseen_insert:
  "a < n \<Longrightarrow> b < n \<Longrightarrow> (a, b) \<notin> seen \<Longrightarrow> unseen n (insert (a, b) seen) < unseen n seen"
  unfolding unseen_def
  by (intro psubset_card_mono) auto

declare readonly.simps [simp del]

termination isChanged
  by (relation "measure (\<lambda>(h, seen, prev, nxt, aff). unseen (length h) seen)")
     (auto simp: unseen_insert)


section \<open>Replacing the state by itself\<close>

text \<open>
  Claim C9. Calling \<^verbatim>\<open>$set\<close> with the very object that is the store's current internal
  state changes nothing: the store is the same afterwards, so \<^verbatim>\<open>$get()\<close> returns the same
  reference, no snapshot is created and no notification round takes place.
\<close>

theorem set_same_state_noop:
  "dollar_set st (NewState (state st)) = st
   \<and> dollar_get (dollar_set st (NewState (state st))) = dollar_get st
   \<and> notified (dollar_set st (NewState (state st))) = notified st
   \<and> heap (dollar_set st (NewState (state st))) = heap st"
  by (simp add: setState_def object_is_def)

theorem set_same_state_noop_witness:
  "dollar_set counter_store (NewState (state counter_store)) = counter_store
   \<and> dollar_get (dollar_set counter_store (NewState (state counter_store)))
       = dollar_get counter_store
   \<and> notified (dollar_set counter_store (NewState (state counter_store)))
       = notified counter_store
   \<and> heap (dollar_set counter_store (NewState (state counter_store))) = heap counter_store"
  using set_same_state_noop [of counter_store] by simp


section \<open>What store construction makes read-only\<close>

lemma dle_refl [simp]: "dle d d"
  by (simp add: dle_def)

lemma rel_option_dle_refl [simp]: "rel_option dle x x"
  by (cases x) auto

lemma frz_refl [simp]: "frz h h"
  by (auto simp: frz_def)

lemma frz_trans:
  assumes "frz h1 h2" "frz h2 h3"
  shows "frz h1 h3"
proof -
  have "rel_option dle (getOwnPropertyDescriptor h1 a k) (getOwnPropertyDescriptor h3 a k)" for a k
  proof -
    have 1: "rel_option dle (getOwnPropertyDescriptor h1 a k) (getOwnPropertyDescriptor h2 a k)"
      and 2: "rel_option dle (getOwnPropertyDescriptor h2 a k) (getOwnPropertyDescriptor h3 a k)"
      using assms by (auto simp: frz_def)
    show ?thesis using 1 2
      by (cases "getOwnPropertyDescriptor h1 a k"; cases "getOwnPropertyDescriptor h2 a k";
          cases "getOwnPropertyDescriptor h3 a k") (auto simp: dle_def)
  qed
  then show ?thesis using assms by (simp add: frz_def)
qed

lemma gopd_defineProperty:
  "getOwnPropertyDescriptor (defineProperty h a k d) b j =
     (if b = a \<and> j = k \<and> a < length h then Some d else getOwnPropertyDescriptor h b j)"
  by (auto simp: getOwnPropertyDescriptor_def defineProperty_def update_conv' nth_list_update)

lemma kind_defineProperty [simp]: "kind (defineProperty h a k d ! b) = kind (h ! b)"
  by (cases "a < length h"; cases "b = a") (auto simp: defineProperty_def)

lemma frz_freeze_prop:
  "getOwnPropertyDescriptor h a k = Some d \<Longrightarrow> frz h (freeze_prop h a k d)"
  by (auto simp: frz_def freeze_prop_def gopd_defineProperty dle_def)

lemma canProxy_frz: "frz h h' \<Longrightarrow> canProxy h' v = canProxy h v"
  by (cases v) (auto simp: frz_def)

lemma frz_gopd_Some:
  "frz h h' \<Longrightarrow> getOwnPropertyDescriptor h' a k = Some d' \<Longrightarrow>
     \<exists>d. getOwnPropertyDescriptor h a k = Some d \<and> pval d' = pval d
        \<and> configurable d' = configurable d \<and> (writable d' \<longrightarrow> writable d)"
proof -
  assume f: "frz h h'" and s: "getOwnPropertyDescriptor h' a k = Some d'"
  from f have "rel_option dle (getOwnPropertyDescriptor h a k) (getOwnPropertyDescriptor h' a k)"
    by (simp add: frz_def)
  with s show ?thesis
    by (cases "getOwnPropertyDescriptor h a k") (auto simp: dle_def)
qed

lemma ownKeys_gopd: "k \<in> set (ownKeys h a) \<longleftrightarrow> getOwnPropertyDescriptor h a k \<noteq> None"
  using map_of_eq_None_iff[of "props (h ! a)" k]
  by (auto simp: ownKeys_def getOwnPropertyDescriptor_def)


lemma frozen_obj_iff:
  "frozen_obj h b \<longleftrightarrow>
     (\<forall>k d. getOwnPropertyDescriptor h b k = Some d \<longrightarrow> configurable d \<longrightarrow> \<not> writable d)"
proof
  assume f: "frozen_obj h b"
  show "\<forall>k d. getOwnPropertyDescriptor h b k = Some d \<longrightarrow> configurable d \<longrightarrow> \<not> writable d"
  proof (intro allI impI)
    fix k d assume d: "getOwnPropertyDescriptor h b k = Some d" and c: "configurable d"
    then have "k \<in> set (ownKeys h b)" by (simp add: ownKeys_gopd)
    with f d c show "\<not> writable d" by (auto simp: frozen_obj_def list_all_iff)
  qed
next
  assume "\<forall>k d. getOwnPropertyDescriptor h b k = Some d \<longrightarrow> configurable d \<longrightarrow> \<not> writable d"
  then show "frozen_obj h b"
    by (auto simp: frozen_obj_def list_all_iff split: option.splits)
qed

lemma fedge_iff:
  "fedge h b c \<longleftrightarrow>
     (\<exists>k d. getOwnPropertyDescriptor h b k = Some d \<and> configurable d \<and> pval d = VRef c
        \<and> canProxy h (VRef c))"
proof
  assume "fedge h b c"
  then show "\<exists>k d. getOwnPropertyDescriptor h b k = Some d \<and> configurable d \<and> pval d = VRef c
        \<and> canProxy h (VRef c)"
    by (auto simp: fedge_def list_ex_iff split: option.splits)
next
  assume "\<exists>k d. getOwnPropertyDescriptor h b k = Some d \<and> configurable d \<and> pval d = VRef c
        \<and> canProxy h (VRef c)"
  then obtain k d where d: "getOwnPropertyDescriptor h b k = Some d" "configurable d"
    "pval d = VRef c" "canProxy h (VRef c)" by blast
  then have "k \<in> set (ownKeys h b)" by (simp add: ownKeys_gopd)
  with d show "fedge h b c"
    unfolding fedge_def list_ex_iff by (intro bexI[of _ k]) auto
qed

lemma frz_ownKeys: "frz h h' \<Longrightarrow> set (ownKeys h' a) = set (ownKeys h a)"
proof -
  assume f: "frz h h'"
  have "getOwnPropertyDescriptor h' a k = None \<longleftrightarrow> getOwnPropertyDescriptor h a k = None" for k
  proof -
    from f have "rel_option dle (getOwnPropertyDescriptor h a k) (getOwnPropertyDescriptor h' a k)"
      by (simp add: frz_def)
    then show ?thesis
      by (cases "getOwnPropertyDescriptor h a k"; cases "getOwnPropertyDescriptor h' a k") auto
  qed
  then show ?thesis by (auto simp: ownKeys_gopd)
qed

lemma finished_mono:
  assumes "finished h V b" "frz h h'" "V \<subseteq> V'"
  shows "finished h' V' b"
proof -
  have fr: "frozen_obj h' b"
    unfolding frozen_obj_iff
  proof (intro allI impI)
    fix k d' assume d': "getOwnPropertyDescriptor h' b k = Some d'"
      and c: "configurable d'"
    from frz_gopd_Some[OF assms(2) d'] obtain d where
      d: "getOwnPropertyDescriptor h b k = Some d" "configurable d' = configurable d"
        "writable d' \<longrightarrow> writable d" by auto
    from assms(1) d c have "\<not> writable d"
      by (auto simp: finished_def frozen_obj_iff)
    with d show "\<not> writable d'" by simp
  qed
  have "c \<in> V'" if "fedge h' b c" for c
  proof -
    from that obtain k d' where
      d': "getOwnPropertyDescriptor h' b k = Some d'" "configurable d'" "pval d' = VRef c"
        "canProxy h' (VRef c)"
      by (auto simp: fedge_iff)
    from frz_gopd_Some[OF assms(2) d'(1)] obtain d where
      d: "getOwnPropertyDescriptor h b k = Some d" "configurable d' = configurable d"
        "pval d' = pval d" by auto
    have "fedge h b c"
      unfolding fedge_iff using d d' canProxy_frz[OF assms(2), of "VRef c"]
      by auto
    with assms(1,3) show ?thesis by (auto simp: finished_def)
  qed
  with fr show ?thesis by (simp add: finished_def)
qed


lemma freeze_prop_other: "b \<noteq> a \<Longrightarrow> freeze_prop h a k d ! b = h ! b"
  by (simp add: freeze_prop_def defineProperty_def)

lemma gopd_freeze_prop_other:
  "j \<noteq> k \<Longrightarrow> getOwnPropertyDescriptor (freeze_prop h a k d) b j = getOwnPropertyDescriptor h b j"
  by (simp add: freeze_prop_def gopd_defineProperty)

lemma gopd_freeze_prop_same:
  "getOwnPropertyDescriptor h a k = Some d \<Longrightarrow>
     getOwnPropertyDescriptor (freeze_prop h a k d) a k = Some (d\<lparr>writable := False\<rparr>)"
proof -
  assume d: "getOwnPropertyDescriptor h a k = Some d"
  then have a: "a < length h"
    by (auto simp: getOwnPropertyDescriptor_def split: if_splits)
  show ?thesis
  proof (cases "writable d")
    case True
    then show ?thesis using a by (simp add: freeze_prop_def gopd_defineProperty)
  next
    case False
    then have "d\<lparr>writable := False\<rparr> = d" by simp
    then show ?thesis using False d by (simp add: freeze_prop_def)
  qed
qed

lemma gopd_same_obj:
  "h' ! a = h ! a \<Longrightarrow> length h' = length h \<Longrightarrow>
     getOwnPropertyDescriptor h' a k = getOwnPropertyDescriptor h a k"
  by (simp add: getOwnPropertyDescriptor_def)

lemma frz_length: "frz h h' \<Longrightarrow> length h' = length h"
  by (simp add: frz_def)


lemma rok_okD:
  assumes "rok_ok h a V ks (h', V')"
  shows "frz h h'" "V \<subseteq> V'"
    "\<And>b. b \<in> V \<Longrightarrow> b \<noteq> a \<Longrightarrow> h' ! b = h ! b"
    "\<And>b. b \<in> V' \<Longrightarrow> b \<notin> V \<Longrightarrow> finished h' V' b"
    "\<And>j. j \<notin> set ks \<Longrightarrow> getOwnPropertyDescriptor h' a j = getOwnPropertyDescriptor h a j"
    "\<And>j d'. j \<in> set ks \<Longrightarrow> getOwnPropertyDescriptor h' a j = Some d' \<Longrightarrow> configurable d' \<Longrightarrow>
        \<not> writable d'"
    "\<And>j d' c. j \<in> set ks \<Longrightarrow> getOwnPropertyDescriptor h' a j = Some d' \<Longrightarrow> configurable d' \<Longrightarrow>
        pval d' = VRef c \<Longrightarrow> canProxy h' (VRef c) \<Longrightarrow> c \<in> V'"
  using assms unfolding rok_ok_def prod.case
  apply -
  subgoal by (elim conjE)
  subgoal by (elim conjE)
  subgoal by (elim conjE) (drule (1) bspec, simp)
  subgoal by (elim conjE) simp
  subgoal by (elim conjE) simp
  subgoal by (elim conjE) (drule (1) bspec, simp)
  subgoal by (elim conjE) (drule (1) bspec, simp)
  done

lemma rok_okI:
  assumes "frz h h'" "V \<subseteq> V'"
    "\<And>b. b \<in> V \<Longrightarrow> b \<noteq> a \<Longrightarrow> h' ! b = h ! b"
    "\<And>b. b \<in> V' \<Longrightarrow> b \<notin> V \<Longrightarrow> finished h' V' b"
    "\<And>j. j \<notin> set ks \<Longrightarrow> getOwnPropertyDescriptor h' a j = getOwnPropertyDescriptor h a j"
    "\<And>j d'. j \<in> set ks \<Longrightarrow> getOwnPropertyDescriptor h' a j = Some d' \<Longrightarrow> configurable d' \<Longrightarrow>
        \<not> writable d'"
    "\<And>j d' c. j \<in> set ks \<Longrightarrow> getOwnPropertyDescriptor h' a j = Some d' \<Longrightarrow> configurable d' \<Longrightarrow>
        pval d' = VRef c \<Longrightarrow> canProxy h' (VRef c) \<Longrightarrow> c \<in> V'"
  shows "rok_ok h a V ks (h', V')"
  unfolding rok_ok_def prod.case
  apply (intro conjI ballI allI impI)
  using assms apply blast+
  done

lemma ro_okD:
  assumes "ro_ok h V (h', V')"
  shows "frz h h'" "V \<subseteq> V'"
    "\<And>b. b \<in> V \<Longrightarrow> h' ! b = h ! b"
    "\<And>b. b \<in> V' \<Longrightarrow> b \<notin> V \<Longrightarrow> finished h' V' b"
  using assms unfolding ro_ok_def prod.case
  apply -
  subgoal by (elim conjE)
  subgoal by (elim conjE)
  subgoal by (elim conjE) (drule (1) bspec, simp)
  subgoal by (elim conjE) simp
  done

lemma ro_okI:
  assumes "frz h h'" "V \<subseteq> V'"
    "\<And>b. b \<in> V \<Longrightarrow> h' ! b = h ! b"
    "\<And>b. b \<in> V' \<Longrightarrow> b \<notin> V \<Longrightarrow> finished h' V' b"
  shows "ro_ok h V (h', V')"
  unfolding ro_ok_def prod.case
  apply (intro conjI ballI allI impI)
  using assms apply blast+
  done

lemma rok_ok_skip:
  assumes ih: "rok_ok h a V ks (h', V')"
    and k: "\<And>d. getOwnPropertyDescriptor h a k = Some d \<Longrightarrow> \<not> configurable d"
  shows "rok_ok h a V (k # ks) (h', V')"
proof (rule rok_okI)
  note D = rok_okD[OF ih]
  show "frz h h'" "V \<subseteq> V'" by (rule D)+
  show "\<And>b. b \<in> V \<Longrightarrow> b \<noteq> a \<Longrightarrow> h' ! b = h ! b" by (rule D)
  show "\<And>b. b \<in> V' \<Longrightarrow> b \<notin> V \<Longrightarrow> finished h' V' b" by (rule D)
  show "getOwnPropertyDescriptor h' a j = getOwnPropertyDescriptor h a j" if "j \<notin> set (k # ks)" for j
    using that by (intro D(5)) simp
  have nc: "\<not> configurable d'" if "getOwnPropertyDescriptor h' a k = Some d'" "k \<notin> set ks" for d'
    using D(5)[OF that(2)] that(1) k by simp
  show "\<not> writable d'"
    if "j \<in> set (k # ks)" "getOwnPropertyDescriptor h' a j = Some d'" "configurable d'" for j d'
  proof (cases "j \<in> set ks")
    case True
    then show ?thesis using that by (intro D(6))
  next
    case False
    with that nc show ?thesis by auto
  qed
  show "c \<in> V'"
    if "j \<in> set (k # ks)" "getOwnPropertyDescriptor h' a j = Some d'" "configurable d'"
      "pval d' = VRef c" "canProxy h' (VRef c)" for j d' c
  proof (cases "j \<in> set ks")
    case True
    then show ?thesis using that by (intro D(7))
  next
    case False
    with that nc show ?thesis by auto
  qed
qed

lemma rok_ok_step:
  assumes d: "getOwnPropertyDescriptor h a k = Some d"
    and a: "a \<in> V"
    and r1: "ro_ok h V (h1, V1)"
    and child: "\<And>c. configurable d \<Longrightarrow> pval d = VRef c \<Longrightarrow> canProxy h (VRef c) \<Longrightarrow> c \<in> V1"
    and ih: "rok_ok (freeze_prop h1 a k d) a V1 ks (h', V')"
  shows "rok_ok h a V (k # ks) (h', V')"
proof (rule rok_okI)
  let ?h2 = "freeze_prop h1 a k d"
  note R = ro_okD[OF r1] and D = rok_okD[OF ih]
  have len1: "length h1 = length h" using R(1) by (rule frz_length)
  have d1: "getOwnPropertyDescriptor h1 a k = Some d"
    using d gopd_same_obj[OF R(3)[OF a] len1] by simp
  have f12: "frz h1 ?h2" using d1 by (rule frz_freeze_prop)
  show f: "frz h h'" using R(1) f12 D(1) by (blast intro: frz_trans)
  have f1': "frz h1 h'" using f12 D(1) by (blast intro: frz_trans)
  show "V \<subseteq> V'" using R(2) D(2) by auto
  show "h' ! b = h ! b" if "b \<in> V" "b \<noteq> a" for b
  proof -
    have "b \<in> V1" using that R(2) by auto
    then have "h' ! b = ?h2 ! b" using that by (intro D(3))
    also have "\<dots> = h1 ! b" using that by (simp add: freeze_prop_other)
    also have "\<dots> = h ! b" using that by (intro R(3))
    finally show ?thesis .
  qed
  show "finished h' V' b" if "b \<in> V'" "b \<notin> V" for b
  proof (cases "b \<in> V1")
    case True
    with that have "finished h1 V1 b" by (intro R(4))
    then show ?thesis using f1' D(2) by (rule finished_mono)
  next
    case False
    with that show ?thesis by (intro D(4))
  qed
  show "getOwnPropertyDescriptor h' a j = getOwnPropertyDescriptor h a j" if "j \<notin> set (k # ks)" for j
  proof -
    have "getOwnPropertyDescriptor h' a j = getOwnPropertyDescriptor ?h2 a j"
      using that by (intro D(5)) simp
    also have "\<dots> = getOwnPropertyDescriptor h1 a j"
      using that by (simp add: gopd_freeze_prop_other)
    also have "\<dots> = getOwnPropertyDescriptor h a j"
      using gopd_same_obj[OF R(3)[OF a] len1] by simp
    finally show ?thesis .
  qed
  have last: "d' = d\<lparr>writable := False\<rparr>"
    if "k \<notin> set ks" "getOwnPropertyDescriptor h' a k = Some d'" for d'
    using D(5)[OF that(1)] that(2) gopd_freeze_prop_same[OF d1] by simp
  show "\<not> writable d'"
    if "j \<in> set (k # ks)" "getOwnPropertyDescriptor h' a j = Some d'" "configurable d'" for j d'
  proof (cases "j \<in> set ks")
    case True
    then show ?thesis using that by (intro D(6))
  next
    case False
    with that last[of d'] show ?thesis by auto
  qed
  show "c \<in> V'"
    if "j \<in> set (k # ks)" "getOwnPropertyDescriptor h' a j = Some d'" "configurable d'"
      "pval d' = VRef c" "canProxy h' (VRef c)" for j d' c
  proof (cases "j \<in> set ks")
    case True
    then show ?thesis using that by (intro D(7))
  next
    case False
    with that last[of d'] have eq: "d' = d\<lparr>writable := False\<rparr>" by auto
    have "canProxy h (VRef c)" using that(5) canProxy_frz[OF f, of "VRef c"] by blast
    with child[of c] that eq have "c \<in> V1" by simp
    with D(2) show ?thesis by auto
  qed
qed


lemma readonly_post:
  "deep \<Longrightarrow> ro_ok h V (readonly h t deep V)
            \<and> (\<forall>a. t = VRef a \<longrightarrow> canProxy h t \<longrightarrow> a \<in> snd (readonly h t deep V))"
  "deep \<Longrightarrow> a \<in> V \<Longrightarrow> rok_ok h a V ks (readonly_keys h a deep V ks)"
proof (induct h t deep V and h a deep V ks rule: readonly_readonly_keys.induct)
  case (1 h target deep visited)
  have triv: "ro_ok h visited (h, visited)" by (rule ro_okI) auto
  show ?case
  proof (cases target)
    case (VRef a)
    show ?thesis
    proof (cases "canProxy h target \<and> a \<notin> visited")
      case False
      then show ?thesis using VRef triv by (auto simp: readonly.simps)
    next
      case True
      obtain h' V' where r: "readonly_keys h a deep (insert a visited) (ownKeys h a) = (h', V')"
        by (cases "readonly_keys h a deep (insert a visited) (ownKeys h a)")
      from 1(1)[OF VRef _ _ \<open>deep\<close>] True r
      have ih: "rok_ok h a (insert a visited) (ownKeys h a) (h', V')" by simp
      note D = rok_okD[OF ih]
      have keys: "k \<in> set (ownKeys h a)" if "getOwnPropertyDescriptor h' a k = Some d'" for k d'
        using that frz_ownKeys[OF D(1), of a] by (auto simp: ownKeys_gopd)
      have fa: "finished h' V' a"
        unfolding finished_def frozen_obj_iff fedge_iff
        using D(6,7) keys by blast
      have "ro_ok h visited (h', V')"
      proof (rule ro_okI)
        show "frz h h'" by (rule D)
        show "visited \<subseteq> V'" using D(2) by auto
        show "h' ! b = h ! b" if "b \<in> visited" for b
          using that True by (intro D(3)) auto
        show "finished h' V' b" if "b \<in> V'" "b \<notin> visited" for b
          using that fa D(4)[of b] by (cases "b = a") auto
      qed
      then show ?thesis using VRef True r D(2) by (simp add: readonly.simps)
    qed
  qed (use triv in \<open>auto simp: readonly.simps\<close>)
next
  case (2 h a deep visited)
  show ?case by (simp, rule rok_okI) auto
next
  case (3 h a deep visited k ks)
  note deep = \<open>deep\<close> and a = \<open>a \<in> visited\<close>
  show ?case
  proof (cases "getOwnPropertyDescriptor h a k")
    case None
    obtain h' V' where r: "readonly_keys h a deep visited ks = (h', V')"
      by (cases "readonly_keys h a deep visited ks")
    from 3(1)[OF None deep a] r have "rok_ok h a visited ks (h', V')" by simp
    then have "rok_ok h a visited (k # ks) (h', V')"
      by (rule rok_ok_skip) (simp add: None)
    then show ?thesis using None r by simp
  next
    case (Some d)
    show ?thesis
    proof (cases "configurable d")
      case False
      obtain h' V' where r: "readonly_keys h a deep visited ks = (h', V')"
        by (cases "readonly_keys h a deep visited ks")
      from 3(2)[OF Some _ deep a] False r
      have "rok_ok h a visited ks (h', V')" by simp
      then have "rok_ok h a visited (k # ks) (h', V')"
        by (rule rok_ok_skip) (simp add: Some False)
      then show ?thesis using Some False r by simp
    next
      case True
      show ?thesis
      proof (cases "deep \<and> truthy (pval d) \<and> canProxy h (pval d)")
        case rec: True
        obtain h1 V1 where r1: "readonly h (pval d) True visited = (h1, V1)"
          by (cases "readonly h (pval d) True visited")
        from 3(3)[OF Some _ rec] True r1
        have p1: "ro_ok h visited (h1, V1)"
          and c1: "\<forall>c. pval d = VRef c \<longrightarrow> canProxy h (pval d) \<longrightarrow> c \<in> V1" by auto
        have a1: "a \<in> V1" using ro_okD(2)[OF p1] a by auto
        obtain h' V' where r2: "readonly_keys (freeze_prop h1 a k d) a deep V1 ks = (h', V')"
          by (cases "readonly_keys (freeze_prop h1 a k d) a deep V1 ks")
        from 3(4)[OF Some _ rec r1[symmetric] deep a1] True r2
        have ih: "rok_ok (freeze_prop h1 a k d) a V1 ks (h', V')" by simp
        have "rok_ok h a visited (k # ks) (h', V')"
          using Some a p1 _ ih by (rule rok_ok_step) (use c1 in auto)
        then show ?thesis using Some True rec r1 r2 by simp
      next
        case norec: False
        obtain h' V' where r2: "readonly_keys (freeze_prop h a k d) a deep visited ks = (h', V')"
          by (cases "readonly_keys (freeze_prop h a k d) a deep visited ks")
        from 3(5)[OF Some _ norec deep a] True r2
        have ih: "rok_ok (freeze_prop h a k d) a visited ks (h', V')" by simp
        have "rok_ok h a visited (k # ks) (h', V')"
          using Some a _ _ ih
        proof (rule rok_ok_step)
          show "ro_ok h visited (h, visited)" by (rule ro_okI) auto
          show "c \<in> visited" if "configurable d" "pval d = VRef c" "canProxy h (VRef c)" for c
            using that norec deep by auto
        qed
        then show ?thesis using Some True norec r2 deep by auto
      qed
    qed
  qed
qed


lemma fedge_frz: "frz h h' \<Longrightarrow> fedge h b c \<Longrightarrow> fedge h' b c"
proof -
  assume f: "frz h h'" and e: "fedge h b c"
  from e obtain k d where d: "getOwnPropertyDescriptor h b k = Some d" "configurable d"
    "pval d = VRef c" "canProxy h (VRef c)" by (auto simp: fedge_iff)
  from f have "rel_option dle (getOwnPropertyDescriptor h b k) (getOwnPropertyDescriptor h' b k)"
    by (simp add: frz_def)
  with d(1) obtain d' where d': "getOwnPropertyDescriptor h' b k = Some d'" "dle d d'"
    by (cases "getOwnPropertyDescriptor h' b k") auto
  then have "configurable d'" "pval d' = VRef c" using d by (auto simp: dle_def)
  moreover have "canProxy h' (VRef c)" using d(4) canProxy_frz[OF f, of "VRef c"] by blast
  ultimately show ?thesis using d'(1) unfolding fedge_iff by blast
qed

lemma readonly_closed:
  assumes cp: "canProxy h (VRef a)" and r: "readonly h (VRef a) True {} = (h', V')"
    and reach: "freachable h a b"
  shows "b \<in> V' \<and> finished h' V' b \<and> canProxy h (VRef b)"
proof -
  from readonly_post(1)[of True h "{}" "VRef a"] r cp
  have ok: "ro_ok h {} (h', V')" and a: "a \<in> V'" by auto
  note R = ro_okD[OF ok]
  have fin: "finished h' V' x" if "x \<in> V'" for x using that by (intro R(4)) auto
  from reach have "(a, b) \<in> {(x, y). fedge h x y}\<^sup>*" by (simp add: freachable_def)
  then have "b \<in> V' \<and> canProxy h (VRef b)"
  proof (induct rule: rtrancl_induct)
    case base
    then show ?case using a cp by simp
  next
    case (step y z)
    then have e: "fedge h y z" and y: "y \<in> V'" by auto
    from fedge_frz[OF R(1) e] fin[OF y] have "z \<in> V'" by (auto simp: finished_def)
    moreover from e have "canProxy h (VRef z)" by (auto simp: fedge_iff)
    ultimately show ?case by simp
  qed
  then show ?thesis using fin by simp
qed

lemma heap_create:
  "\<exists>xs. heap (create h slice) = fst (readonly h (VRef slice) True {}) @ xs"
  by (simp add: create_def Let_def snapshotComputedState_def split: prod.splits)

lemma gopd_append:
  "b < length h \<Longrightarrow> getOwnPropertyDescriptor (h @ xs) b k = getOwnPropertyDescriptor h b k"
  by (simp add: getOwnPropertyDescriptor_def nth_append)

lemma frozen_obj_append: "b < length h \<Longrightarrow> frozen_obj (h @ xs) b = frozen_obj h b"
  by (simp add: frozen_obj_iff gopd_append)

lemma host_assign_frozen:
  "frozen_obj h b \<Longrightarrow> getOwnPropertyDescriptor h b k = Some d \<Longrightarrow> configurable d \<Longrightarrow>
     host_assign h b k v = None"
  by (auto simp: frozen_obj_iff host_assign_def)

text \<open>
  Claim C7, as stated, fails: \<^verbatim>\<open>readonly\<close> does not enter an object that \<^verbatim>\<open>canProxy\<close> refuses
  and skips every non-configurable property, so a plain object that is reachable only that
  way keeps its writable properties, and assigning to them changes what the store sees.
  Here the plain object \<^verbatim>\<open>prefs\<close> sits behind a class instance: after construction its
  property is still writable, the caller's assignment succeeds, and the object is reachable
  from the store's state.
\<close>

theorem create_leaves_object_behind_instance_writable:
  "reachable instance_heap 0 2
   \<and> kind (instance_heap ! 2) = Plain
   \<and> \<not> frozen_obj (heap (create instance_heap 0)) 2
   \<and> map_option (\<lambda>h. reflect_get h 2 ''theme'')
        (host_assign (heap (create instance_heap 0)) 2 ''theme'' (VStr ''light''))
       = Some (VStr ''light'')
   \<and> reachable (heap (create instance_heap 0)) (state (create instance_heap 0)) 2"
proof -
  have e: "edge instance_heap 0 1" "edge instance_heap 1 2"
    by code_simp+
  then have r: "reachable instance_heap 0 2"
    unfolding reachable_def by (auto intro: converse_rtrancl_into_rtrancl)
  have e': "edge (heap (create instance_heap 0)) (state (create instance_heap 0)) 1"
    "edge (heap (create instance_heap 0)) 1 2"
    by code_simp+
  then have r': "reachable (heap (create instance_heap 0)) (state (create instance_heap 0)) 2"
    unfolding reachable_def by (auto intro: converse_rtrancl_into_rtrancl)
  have k: "kind (instance_heap ! 2) = Plain"
    by code_simp
  have f: "\<not> frozen_obj (heap (create instance_heap 0)) 2"
    by code_simp
  have a: "map_option (\<lambda>h. reflect_get h 2 ''theme'')
        (host_assign (heap (create instance_heap 0)) 2 ''theme'' (VStr ''light''))
       = Some (VStr ''light'')"
    by code_simp
  from r k f a r' show ?thesis by blast
qed

text \<open>
  Claim C7, amended. After store construction, every object that is reachable from the
  supplied slice through configurable properties whose values are plain objects has no
  configurable property left writable, and an assignment by outside code to such a
  property of such an object is rejected. (Objects reachable only through a
  non-configurable property or through an object that is not plain are left as they were.)
\<close>

theorem create_freezes_reachable:
  assumes "canProxy h (VRef slice)" and "freachable h slice b"
  shows "frozen_obj (heap (create h slice)) b
    \<and> (\<forall>k d v. getOwnPropertyDescriptor (heap (create h slice)) b k = Some d \<and> configurable d
          \<longrightarrow> host_assign (heap (create h slice)) b k v = None)"
proof -
  obtain h' V' where r: "readonly h (VRef slice) True {} = (h', V')"
    by (cases "readonly h (VRef slice) True {}")
  from readonly_closed[OF assms(1) r assms(2)]
  have fin: "finished h' V' b" and cp: "canProxy h (VRef b)" by auto
  from readonly_post(1)[of True h "{}" "VRef slice"] r have "frz h h'"
    by (auto dest: ro_okD)
  with cp have b: "b < length h'" by (auto simp: frz_def)
  from heap_create[of h slice] r obtain xs where hc: "heap (create h slice) = h' @ xs" by auto
  have fr: "frozen_obj (heap (create h slice)) b"
    using fin b by (simp add: hc frozen_obj_append finished_def)
  then show ?thesis by (auto intro: host_assign_frozen)
qed



theorem create_freezes_reachable_witness:
  "canProxy counter_heap (VRef 0)
   \<and> freachable counter_heap 0 1
   \<and> frozen_obj (heap (create counter_heap 0)) 1
   \<and> getOwnPropertyDescriptor (heap (create counter_heap 0)) 1 ''value''
       = Some \<lparr>pval = VNum 10, writable = False, enumerable = True, configurable = True\<rparr>
   \<and> host_assign (heap (create counter_heap 0)) 1 ''value'' (VNum 20) = None"
proof -
  have cp: "canProxy counter_heap (VRef 0)"
    by code_simp
  have "fedge counter_heap 0 1"
    by code_simp
  then have fr: "freachable counter_heap 0 1"
    unfolding freachable_def by auto
  have d: "getOwnPropertyDescriptor (heap (create counter_heap 0)) 1 ''value''
       = Some \<lparr>pval = VNum 10, writable = False, enumerable = True, configurable = True\<rparr>"
    by code_simp
  from create_freezes_reachable [OF cp fr] d cp fr show ?thesis
    by auto
qed


section \<open>Actions that call actions\<close>

lemma markDirty_stack_Nil [simp]: "markDirty_stack st [] = Some st"
  by (simp add: markDirty_stack.simps)

lemma markDirty_stack_Cons:
  "markDirty_stack st (t # ts) = markDirty_stack (mark_one st t) (parents_of st t @ ts)"
  by (subst markDirty_stack.simps) simp

declare markDirty_stack_Nil [code] markDirty_stack_Cons [code]

lemmas markDirty_stack_induct =
  markDirty_stack.raw_induct [rotated 1, consumes 1, case_names step]

lemma markDirty_stack_fields:
  "markDirty_stack st ws = Some st' \<Longrightarrow> st' = st\<lparr>mutationCache := mutationCache st'\<rparr>"
proof (induct rule: markDirty_stack_induct)
  case (step f st ws y)
  note 1 = step
  show ?case
  proof (cases ws)
    case Nil
    with 1(2) show ?thesis by simp
  next
    case (Cons t ts)
    with 1(2) have "f (mark_one st t) (parents_of st t @ ts) = Some y" by simp
    from 1(1)[OF this] have "y = (mark_one st t)\<lparr>mutationCache := mutationCache y\<rparr>" .
    also have "\<dots> = st\<lparr>mutationCache := mutationCache y\<rparr>"
      by (simp add: mark_one_def Let_def)
    finally show ?thesis .
  qed
qed

lemma markDirty_fields:
  "markDirty st t = Some st' \<Longrightarrow> st' = st\<lparr>mutationCache := mutationCache st'\<rparr>"
  unfolding markDirty_def by (rule markDirty_stack_fields)

lemma inAction_markDirty: "markDirty st t = Some st' \<Longrightarrow> inAction st' = inAction st"
proof -
  assume "markDirty st t = Some st'"
  then have "st' = st\<lparr>mutationCache := mutationCache st'\<rparr>" by (rule markDirty_fields)
  then have "inAction st' = inAction (st\<lparr>mutationCache := mutationCache st'\<rparr>)" by simp
  then show ?thesis by simp
qed

lemma inAction_unlinkCache [simp]: "inAction (unlinkCache st t k) = inAction st"
  by (simp add: unlinkCache_def Let_def split: option.splits)

lemma inAction_handler_get [simp]: "inAction (snd (handler_get st t k)) = inAction st"
  by (simp add: handler_get_def link_child_def Let_def split: option.splits mutation.splits val.splits)

lemma after_write_inAction: "inAction st \<Longrightarrow> after_write st = (Returned True, st)"
  by (simp add: after_write_def)

lemma inAction_setValue:
  "inAction st \<Longrightarrow> setValue st t k m v = Some (r, st') \<Longrightarrow> inAction st' \<and> r = Returned True"
  by (auto simp: setValue_def Let_def after_write_inAction dest!: inAction_markDirty
      split: option.splits)

lemma inAction_handler_set:
  "inAction st \<Longrightarrow> handler_set st t k v = Some (r, st') \<Longrightarrow> inAction st'"
  by (auto simp: handler_set_def Let_def dest: inAction_setValue
      split: option.splits mutation.splits if_splits)

lemma inAction_handler_deleteProperty:
  "inAction st \<Longrightarrow> handler_deleteProperty st t k = Some (r, st') \<Longrightarrow> inAction st'"
  by (auto simp: handler_deleteProperty_def Let_def after_write_inAction
      dest!: inAction_markDirty split: option.splits if_splits)

lemma trap_outcome_Some:
  "trap_outcome strict r = Some (out, st') \<Longrightarrow> \<exists>t. r = Some (t, st')"
  by (auto simp: trap_outcome_def split: option.splits tres.splits if_splits)

lemma inAction_kept:
  "inAction st \<Longrightarrow> exec strict st c = Some (out, st') \<Longrightarrow> inAction st'"
  "inAction st \<Longrightarrow> run strict st cs = Some (out, st') \<Longrightarrow> inAction st'"
  "inAction st \<Longrightarrow> act strict st cs = Some (out, st') \<Longrightarrow> inAction st'"
proof (induct strict st c and strict st cs and strict st cs arbitrary: out st' and out st' and out st'
    rule: exec_run_act.induct)
  case (1 strict st t k)
  then show ?case by auto
next
  case (2 strict st t k v)
  then show ?case by (auto dest!: trap_outcome_Some dest: inAction_handler_set)
next
  case (3 strict st t k)
  then show ?case by (auto dest!: trap_outcome_Some dest: inAction_handler_deleteProperty)
next
  case (4 strict st body)
  then show ?case by simp
next
  case (5 strict st)
  then show ?case by simp
next
  case (6 strict st)
  then show ?case by simp
next
  case (7 strict st c cs)
  from 7(4) obtain o1 st1 where e: "exec strict st c = Some (o1, st1)"
    by (cases "exec strict st c") auto
  show ?case
  proof (cases o1)
    case Done
    from 7(1)[OF 7(3) e] have i1: "inAction st1" .
    from 7(4) e Done have r: "run strict st1 cs = Some (out, st')" by simp
    from 7(2)[OF e refl Done i1 r] show ?thesis .
  next
    case (Thrown x)
    with 7(4) e have "st' = st1" by simp
    with 7(1)[OF 7(3) e] show ?thesis by simp
  qed
next
  case (8 strict st body)
  from 8(4) 8(3) have "run strict st body = Some (out, st')" by simp
  from 8(1)[OF 8(3) 8(3) this] show ?case .
qed

lemma run_append:
  "run strict st (xs @ ys) =
     (case run strict st xs of
        None \<Rightarrow> None
      | Some (Thrown e, st1) \<Rightarrow> Some (Thrown e, st1)
      | Some (Done, st1) \<Rightarrow> run strict st1 ys)"
  by (induct xs arbitrary: st) (auto split: option.splits outcome.splits)

lemma run_inline:
  assumes "inAction st"
  shows "run strict st (pre @ Invoke callee # post) = run strict st (pre @ callee @ post)"
proof (cases "run strict st pre")
  case None
  then show ?thesis by (simp add: run_append)
next
  case (Some r)
  obtain out st1 where r: "r = (out, st1)" by (cases r)
  show ?thesis
  proof (cases out)
    case Done
    with Some r assms have "inAction st1" by (auto dest: inAction_kept(2))
    then show ?thesis using Some r Done
      by (simp add: run_append[of strict st pre] run_append[of strict st1 callee]
          split: option.splits outcome.splits)
  next
    case (Thrown e)
    then show ?thesis using Some r by (simp add: run_append[of strict st pre])
  qed
qed

text \<open>
  Claim C4. An action that synchronously invokes another action behaves exactly as if
  the callee's body stood in place of the call: the dispatch yields the same outcome and
  the same store, hence the same published snapshots and the same notification rounds; in
  particular no snapshot is published for the callee alone.
\<close>

theorem nested_action_is_inlined:
  "act strict st (pre @ Invoke callee # post) = act strict st (pre @ callee @ post)"
proof (cases "inAction st")
  case True
  then show ?thesis using run_inline[of st strict pre callee post] by simp
next
  case False
  have "run strict (st\<lparr>inAction := True\<rparr>) (pre @ Invoke callee # post)
      = run strict (st\<lparr>inAction := True\<rparr>) (pre @ callee @ post)"
    by (rule run_inline) simp
  then show ?thesis using False by simp
qed


theorem nested_action_is_inlined_witness:
  "act True counter_store
     ([Assign Root ''count'' (VNum 1)] @ Invoke [Assign Root ''count'' (VNum 2)] # [Read Root ''nested''])
   = act True counter_store
       ([Assign Root ''count'' (VNum 1)] @ [Assign Root ''count'' (VNum 2)] @ [Read Root ''nested''])"
  using nested_action_is_inlined
    [of True counter_store "[Assign Root ''count'' (VNum 1)]" "[Assign Root ''count'' (VNum 2)]"
      "[Read Root ''nested'']"] .


section \<open>Writes the trap refuses\<close>

text \<open>
  Claim C5, as stated, fails where it says that no error reaches the writer. The \<^verbatim>\<open>set\<close>
  trap refuses a non-writable, non-configurable key by returning \<^verbatim>\<open>false\<close>, and an
  assignment in strict code (every module and class body) turns that into a \<^verbatim>\<open>TypeError\<close>:
  the strict action \<^verbatim>\<open>{ this.id = 8 }\<close> on a store whose \<^verbatim>\<open>id\<close> is locked ends with that
  error.
\<close>

theorem strict_writer_gets_type_error:
  "getOwnPropertyDescriptor (heap locked_store) (state locked_store) ''id''
     = Some \<lparr>pval = VNum 7, writable = False, enumerable = True, configurable = False\<rparr>
   \<and> map_option fst (act True locked_store [Assign Root ''id'' (VNum 8)]) = Some (Thrown TypeError)"
  by code_simp

text \<open>
  Claim C5, amended. A draft write to a key whose property on the underlying snapshot is
  non-writable and non-configurable is refused by the trap, which returns \<^verbatim>\<open>false\<close> and
  leaves the whole store, pending operations included, exactly as it was. In non-strict
  code the assignment is thereby silently ignored and the rest of the batch runs and
  commits as if the write were not there; in strict code the writer receives a
  \<^verbatim>\<open>TypeError\<close>, again with the store untouched.
\<close>

theorem rejected_write_leaves_store:
  assumes "getOwnPropertyDescriptor (heap st) (resolve st tg) k = Some d"
    and "\<not> writable d" and "\<not> configurable d"
  shows "handler_set st (resolve st tg) k v = Some (Returned False, st)
    \<and> run False st (Assign tg k v # rest) = run False st rest
    \<and> run True st (Assign tg k v # rest) = Some (Thrown TypeError, st)"
  using assms by (simp add: handler_set_def trap_outcome_def)

theorem rejected_write_leaves_store_witness:
  "getOwnPropertyDescriptor (heap locked_store) (resolve locked_store Root) ''id''
     = Some \<lparr>pval = VNum 7, writable = False, enumerable = True, configurable = False\<rparr>
   \<and> handler_set locked_store (resolve locked_store Root) ''id'' (VNum 8)
       = Some (Returned False, locked_store)
   \<and> run False locked_store (Assign Root ''id'' (VNum 8) # [Assign Root ''count'' (VNum 3)])
       = run False locked_store [Assign Root ''count'' (VNum 3)]
   \<and> run True locked_store (Assign Root ''id'' (VNum 8) # [Assign Root ''count'' (VNum 3)])
       = Some (Thrown TypeError, locked_store)"
proof -
  have d: "getOwnPropertyDescriptor (heap locked_store) (resolve locked_store Root) ''id''
     = Some \<lparr>pval = VNum 7, writable = False, enumerable = True, configurable = False\<rparr>"
    by code_simp
  have "handler_set locked_store (resolve locked_store Root) ''id'' (VNum 8)
       = Some (Returned False, locked_store)
   \<and> run False locked_store (Assign Root ''id'' (VNum 8) # [Assign Root ''count'' (VNum 3)])
       = run False locked_store [Assign Root ''count'' (VNum 3)]
   \<and> run True locked_store (Assign Root ''id'' (VNum 8) # [Assign Root ''count'' (VNum 3)])
       = Some (Thrown TypeError, locked_store)"
    by (rule rejected_write_leaves_store [OF d]) simp_all
  with d show ?thesis by blast
qed

section \<open>An action that throws\<close>

text \<open>
  Claim C6. The code does not do what the claim says. \<^verbatim>\<open>act\<close> has no \<^verbatim>\<open>finally\<close>: when
  the action throws, \<^verbatim>\<open>flushMutations()\<close> and \<^verbatim>\<open>inAction = false\<close> are skipped. Nothing is
  published at that moment, but the pending write stays in \<^verbatim>\<open>mutationCache\<close> and \<^verbatim>\<open>inAction\<close>
  stays set, so the next action, although it completes, is treated as nested: it is never
  committed, \<^verbatim>\<open>$get()\<close> keeps returning the old snapshot and no subscriber is notified.
  The same action on a fresh store publishes one snapshot with \<^verbatim>\<open>count = 2\<close>.
\<close>

theorem throwing_action_wedges_store:
  "map_option fst (act True counter_store [Assign Root ''count'' (VNum 1), Raise])
     = Some (Thrown UserError)
   \<and> notified after_throw = []
   \<and> dollar_get after_throw = dollar_get counter_store
   \<and> inAction after_throw
   \<and> mutationCache after_throw = [(2, \<lparr>muts = [(''count'', MSet (VNum 1))], dirty = True\<rparr>)]
   \<and> map_option
        (\<lambda>(out, st). (out, notified st, dollar_get st = dollar_get counter_store,
                       reflect_get (heap st) (dollar_get st) ''count''))
        (act True after_throw [Assign Root ''count'' (VNum 2)])
       = Some (Done, [], True, VNum 0)
   \<and> map_option (\<lambda>(out, st). (out, length (notified st), reflect_get (heap st) (dollar_get st) ''count''))
        (act True counter_store [Assign Root ''count'' (VNum 2)])
       = Some (Done, 1, VNum 2)"
  by code_simp

section \<open>Writes that change nothing\<close>


text \<open>
  The trap compares the snapshot value with \<^verbatim>\<open>===\<close> where the pending value is compared
  with \<^verbatim>\<open>Object.is\<close>: assigning \<^verbatim>\<open>NaN\<close> to a property that holds \<^verbatim>\<open>NaN\<close> is recorded and
  published too.
\<close>

theorem assigning_nan_over_nan_publishes:
  "reflect_get (heap nan_store) (state nan_store) ''x'' = VNaN
   \<and> map_option (\<lambda>(out, st). (out, length (notified st), reflect_get (heap st) (state st) ''x''))
        (act False nan_store [Assign Root ''x'' VNaN])
       = Some (Done, 1, VNaN)"
  by code_simp




lemma resolve_inAction [simp]: "resolve (st\<lparr>inAction := b\<rparr>) tg = resolve st tg"
  by (cases tg) simp_all

lemma identical_write_inAction [simp]:
  "identical_write (st\<lparr>inAction := b\<rparr>) c = identical_write st c"
  by (cases c) (auto simp: identical_write_def pending_def Let_def split: tgt.splits)



section \<open>The commit is correct\<close>

section \<open>Frames of the commit\<close>











lemma hfr_length: "hfr K h h' \<Longrightarrow> length h \<le> length h'"
  by (simp add: hfr_def)

lemma hfr_frz: "frz h h' \<Longrightarrow> hfr {} h h'"
  by (simp add: hfr_def frz_def)

lemma hfr_readonly: "hfr {} h (fst (readonly h v True {}))"
proof -
  obtain h' V' where r: "readonly h v True {} = (h', V')" by (cases "readonly h v True {}")
  from readonly_post(1)[of True h "{}" v] r have "frz h h'" by (auto dest: ro_okD)
  then show ?thesis using r by (simp add: hfr_frz)
qed




lemma same_rest_refl [simp]: "same_rest st st"
  by (simp add: same_rest_def)




















lemma is_dirty_heap_upd [simp]: "is_dirty (st\<lparr>heap := h\<rparr>) a = is_dirty st a"
  by (simp add: is_dirty_def)

lemma has_rec_heap_upd [simp]: "has_rec (st\<lparr>heap := h\<rparr>) a = has_rec st a"
  by (simp add: has_rec_def)

lemma flushed_val_heap_upd [simp]: "flushed_val (st\<lparr>heap := h\<rparr>) v = flushed_val st v"
  by (simp add: flushed_val_def split: val.splits option.splits)

lemma clean_ref_heap_upd [simp]: "clean_ref (st\<lparr>heap := h\<rparr>) v = clean_ref st v"
  by (simp add: clean_ref_def split: val.splits)




lemma length_readonly [simp]: "length (fst (readonly h v True {})) = length h"
  using hfr_readonly[of h v] readonly_post(1)[of True h "{}" v]
  by (cases "readonly h v True {}") (auto dest!: ro_okD(1) simp: frz_def)


lemma distinct_uniq [simp]: "distinct (uniq xs)"
  by (simp add: uniq_def)

lemma set_uniq [simp]: "set (uniq xs) = set xs"
  by (simp add: uniq_def)












section \<open>What the body of an action maintains\<close>



lemma par_mark_one [simp]: "par (mark_one st t) = par st"
  by (simp add: par_def parents_of_def mark_one_def Let_def)

lemma parents_of_mark_one [simp]: "parents_of (mark_one st t) c = parents_of st c"
  by (simp add: parents_of_def mark_one_def Let_def)

lemma has_rec_mark_one [simp]: "has_rec (mark_one st t) a \<longleftrightarrow> a = t \<or> has_rec st a"
  by (auto simp: has_rec_def mark_one_def Let_def update_conv')

lemma is_dirty_mark_one [simp]: "is_dirty (mark_one st t) a \<longleftrightarrow> a = t \<or> is_dirty st a"
  by (auto simp: is_dirty_def mark_one_def Let_def update_conv' split: option.splits)

lemma pending_mark_one [simp]: "muts (pending (mark_one st t) a) = muts (pending st a)"
  by (auto simp: pending_def mark_one_def Let_def update_conv' split: option.splits)

lemma written_mark_one [simp]: "written (mark_one st t) w = written st w"
  by (simp add: written_def)

lemma ancw_mark_one [simp]: "ancw W (mark_one st t) a = ancw W st a"
  by (simp add: ancw_def)







lemma update_not_Nil [simp]: "AList.update k v xs \<noteq> []"
  by (cases xs) auto

lemma has_rec_cong: "mutationCache st' = mutationCache st \<Longrightarrow> has_rec st' a = has_rec st a"
  by (simp add: has_rec_def)

lemma is_dirty_cong: "mutationCache st' = mutationCache st \<Longrightarrow> is_dirty st' a = is_dirty st a"
  by (simp add: is_dirty_def)

lemma pending_cong: "mutationCache st' = mutationCache st \<Longrightarrow> pending st' a = pending st a"
  by (simp add: pending_def)

lemma written_cong: "mutationCache st' = mutationCache st \<Longrightarrow> written st' a = written st a"
  by (simp add: written_def pending_def)





subsection \<open>The side tables of parents and children\<close>

lemma link_child_fields [simp]:
  "heap (link_child st t k c) = heap st" "state (link_child st t k c) = state st"
  "computedState (link_child st t k c) = computedState st"
  "mutationCache (link_child st t k c) = mutationCache st"
  "flushCache (link_child st t k c) = flushCache st"
  "snapshotCache (link_child st t k c) = snapshotCache st"
  "computedNames (link_child st t k c) = computedNames st"
  "computedCache (link_child st t k c) = computedCache st"
  "snapshotLocal (link_child st t k c) = snapshotLocal st"
  "evaluated (link_child st t k c) = evaluated st"
  "notified (link_child st t k c) = notified st"
  "inAction (link_child st t k c) = inAction st"
  by (simp_all add: link_child_def Let_def)

lemma unlinkCache_fields [simp]:
  "heap (unlinkCache st t k) = heap st" "state (unlinkCache st t k) = state st"
  "computedState (unlinkCache st t k) = computedState st"
  "mutationCache (unlinkCache st t k) = mutationCache st"
  "flushCache (unlinkCache st t k) = flushCache st"
  "snapshotCache (unlinkCache st t k) = snapshotCache st"
  "computedNames (unlinkCache st t k) = computedNames st"
  "computedCache (unlinkCache st t k) = computedCache st"
  "snapshotLocal (unlinkCache st t k) = snapshotLocal st"
  "evaluated (unlinkCache st t k) = evaluated st"
  "notified (unlinkCache st t k) = notified st"
  by (simp_all add: unlinkCache_def Let_def split: option.splits)



lemma par_mutationCache_upd [simp]: "par (st\<lparr>mutationCache := mc\<rparr>) = par st"
  by (simp add: par_def parents_of_def)



lemma batch_frame_refl [simp]: "batch_frame st st"
  by (simp add: batch_frame_def)









section \<open>One dispatch\<close>


















section \<open>What a commit copies and what it shares\<close>

lemma written_has_rec: "written st w \<Longrightarrow> has_rec st w"
  by (auto simp: written_def pending_def has_rec_def split: option.splits)





end
